theory Spec2Isabelle
  imports Complex_Main "HOL-Library.Char_ord" "HOL-Library.List_Lexorder" "HOL-Library.Multiset"
begin

section \<open>Data model of \<^verbatim>\<open>torch/_inductor/comms.py\<close>\<close>

text \<open>
  A scheduler node is identified by its name (\<^verbatim>\<open>get_name()\<close>), which is unique; the
  type \<open>'n\<close> of names carries the linear order that \<^verbatim>\<open>sorted(..., key=get_name)\<close>
  uses. The attributes that \<^verbatim>\<open>comms.py\<close> reads from a node are the fields of a
  graph: the class of \<^verbatim>\<open>snode.node\<close>, the containers \<^verbatim>\<open>node_users\<close>,
  \<^verbatim>\<open>inverse_users\<close> and \<^verbatim>\<open>args\<close>, the estimate of \<^verbatim>\<open>get_runtime_snode\<close>
  (floating point in Python, exact rationals here) and the weak dependencies recorded
  by \<^verbatim>\<open>add_mutation_dep\<close>.
\<close>

datatype node_kind = Compute | CollectiveKernel | Wait

record 'n graph =
  kind :: "'n \<Rightarrow> node_kind"
  node_users :: "'n \<Rightarrow> 'n list"
  inverse_users :: "'n \<Rightarrow> 'n list"
  args :: "'n \<Rightarrow> 'n list"
  runtime :: "'n \<Rightarrow> rat"
  mutation_deps :: "'n \<Rightarrow> 'n list"

datatype error = AssertionError | UnboundLocalError | KeyError

text \<open>
  What the code does besides computing: \<^verbatim>\<open>breakpoint()\<close>, \<^verbatim>\<open>print()\<close> and
  \<^verbatim>\<open>printd(...)\<close>. The model records each call and resumes.
\<close>

datatype event = Breakpoint | Print | Printd

text \<open>\<^verbatim>\<open>tuple_sorted\<close>: the elements of a set, or of a list, in ascending name order.\<close>

definition tuple_sorted :: "('n::linorder) set \<Rightarrow> 'n list" where
  "tuple_sorted x = sorted_list_of_set x"

definition tuple_sorted_list :: "('n::linorder) list \<Rightarrow> 'n list" where
  "tuple_sorted_list x = sort_key (\<lambda>x. x) x"

section \<open>\<^verbatim>\<open>sink_waits\<close>\<close>

text \<open>
  The inner loop of lines 28--31: every pending wait that has \<open>snode\<close> among its users
  is appended to \<open>new_result\<close> and removed from \<open>cur_waits\<close>.
\<close>

definition sink_flush :: "'n graph \<Rightarrow> 'n \<Rightarrow> 'n list \<Rightarrow> 'n list \<times> 'n set \<Rightarrow> 'n list \<times> 'n set" where
  "sink_flush g snode waits st =
     fold (\<lambda>wait (new_result, cur_waits).
             if snode \<in> set (node_users g wait)
             then (new_result @ [wait], cur_waits - {wait})
             else (new_result, cur_waits)) waits st"

text \<open>
  The loop of lines 24--33. Line 33 appends the local variable \<^verbatim>\<open>node\<close>, which is
  bound only by the loop of line 34, after this one: reading it here raises
  \<^verbatim>\<open>UnboundLocalError\<close>.
\<close>

fun sink_waits_loop ::
  "('n::linorder) graph \<Rightarrow> 'n list \<Rightarrow> 'n list \<times> 'n set \<Rightarrow> error + ('n list \<times> 'n set)" where
  "sink_waits_loop g [] st = Inr st"
| "sink_waits_loop g (snode # rest) (new_result, cur_waits) =
     (if kind g snode = Wait
      then sink_waits_loop g rest (new_result, insert snode cur_waits)
      else (case sink_flush g snode (tuple_sorted cur_waits) (new_result, cur_waits) of
              (new_result', cur_waits') \<Rightarrow> Inl UnboundLocalError))"

definition sink_waits :: "('n::linorder) graph \<Rightarrow> 'n list \<Rightarrow> error + 'n list" where
  "sink_waits g result =
     (case sink_waits_loop g result ([], {}) of
        Inl e \<Rightarrow> Inl e
      | Inr (new_result, cur_waits) \<Rightarrow> Inr (new_result @ tuple_sorted cur_waits))"

section \<open>\<^verbatim>\<open>raise_comms\<close>\<close>

text \<open>
  The while loop of lines 50--52: as long as some pending communication has \<open>snode\<close>
  among its \<^verbatim>\<open>args\<close>, the oldest pending one is popped and emitted.
\<close>

fun raise_flush :: "'n graph \<Rightarrow> 'n \<Rightarrow> 'n list \<Rightarrow> 'n list \<Rightarrow> 'n list \<times> 'n list" where
  "raise_flush g snode new_result [] = (new_result, [])"
| "raise_flush g snode new_result (comm # cur_comms) =
     (if \<exists>c \<in> set (comm # cur_comms). snode \<in> set (args g c)
      then raise_flush g snode (new_result @ [comm]) cur_comms
      else (new_result, comm # cur_comms))"

definition raise_scan :: "'n graph \<Rightarrow> 'n list \<Rightarrow> 'n list \<times> 'n list" where
  "raise_scan g result =
     fold (\<lambda>snode (new_result, cur_comms).
             if kind g snode = CollectiveKernel
             then (new_result, cur_comms @ [snode])
             else (case raise_flush g snode new_result cur_comms of
                     (new_result', cur_comms') \<Rightarrow> (new_result' @ [snode], cur_comms')))
          (rev result) ([], [])"

definition raise_comms :: "('n::linorder) graph \<Rightarrow> 'n list \<Rightarrow> error + 'n list" where
  "raise_comms g result =
     (case raise_scan g result of
        (new_result, cur_comms) \<Rightarrow>
          if length cur_comms \<le> 1
          then Inr (rev (new_result @ tuple_sorted_list cur_comms))
          else Inl AssertionError)"

section \<open>\<^verbatim>\<open>get_ancestors\<close> and \<^verbatim>\<open>get_descendants\<close>\<close>

text \<open>
  One round of the breadth-first search (lines 65--71): every neighbour of a node of
  \<open>cur_nodes\<close> that has not been seen is recorded and queued for the next round.
\<close>

definition bfs_round :: "('n \<Rightarrow> 'n list) \<Rightarrow> 'n list \<Rightarrow> 'n set \<Rightarrow> 'n set \<times> 'n list" where
  "bfs_round nbrs cur_nodes seen =
     fold (\<lambda>node. fold (\<lambda>inp (seen, new_nodes).
                          if inp \<notin> seen then (insert inp seen, new_nodes @ [inp])
                          else (seen, new_nodes)) (nbrs node))
          cur_nodes (seen, [])"

text \<open>
  The while loop of lines 64--71. It runs until a round finds nothing new; on a graph
  with infinitely many reachable nodes it does not return (\<open>None\<close>).
\<close>

partial_function (option) bfs_loop :: "('n \<Rightarrow> 'n list) \<Rightarrow> 'n set \<Rightarrow> 'n list \<Rightarrow> 'n set option" where
  "bfs_loop nbrs seen cur_nodes =
     (if length cur_nodes > 0
      then (case bfs_round nbrs cur_nodes seen of
              (seen', new_nodes) \<Rightarrow> bfs_loop nbrs seen' new_nodes)
      else Some seen)"

declare bfs_loop.simps [code]

definition get_ancestors :: "'n graph \<Rightarrow> 'n \<Rightarrow> 'n set option" where
  "get_ancestors g node = bfs_loop (inverse_users g) {} [node]"

definition get_descendants :: "'n graph \<Rightarrow> 'n \<Rightarrow> 'n set option" where
  "get_descendants g node = bfs_loop (node_users g) {} [node]"

section \<open>\<^verbatim>\<open>decide_global_ordering_comms\<close>\<close>

text \<open>
  Modelled from the spec: \<^verbatim>\<open>add_mutation_dep\<close> of the scheduler module, which is not
  part of the sources: it appends a synthetic dependency, here the name carried by the
  \<^verbatim>\<open>WeakDep\<close>, to the node's dependencies.
\<close>

definition add_mutation_dep :: "'n graph \<Rightarrow> 'n \<Rightarrow> 'n \<Rightarrow> 'n graph" where
  "add_mutation_dep g n dep = g\<lparr>mutation_deps := (mutation_deps g)(n := mutation_deps g n @ [dep])\<rparr>"

definition decide_global_ordering_comms :: "'n graph \<Rightarrow> 'n list \<Rightarrow> 'n graph" where
  "decide_global_ordering_comms g nodes =
     (let comm_nodes = filter (\<lambda>n. kind g n = CollectiveKernel) nodes
      in fold (\<lambda>i g. add_mutation_dep g (comm_nodes ! i) (comm_nodes ! (i - 1)))
              [1..<length comm_nodes] g)"

section \<open>\<^verbatim>\<open>dumb_reordering\<close>\<close>

text \<open>
  The nodes are \<^verbatim>\<open>fx.Node\<close>s, from which the two passes read the same attributes
  as from scheduler nodes; \<open>fusion_meta\<close> gives, for a node whose \<^verbatim>\<open>meta\<close> has the
  key \<^verbatim>\<open>"fusion_meta"\<close>, the scheduler node stored there. The last line looks the
  key up again for every node that is left.
\<close>

fun fusion_snodes :: "('n \<rightharpoonup> 's) \<Rightarrow> 'n list \<Rightarrow> error + 's list" where
  "fusion_snodes fusion_meta [] = Inr []"
| "fusion_snodes fusion_meta (node # nodes) =
     (case fusion_meta node of
        None \<Rightarrow> Inl KeyError
      | Some snode \<Rightarrow>
          (case fusion_snodes fusion_meta nodes of
             Inl e \<Rightarrow> Inl e
           | Inr snodes \<Rightarrow> Inr (snode # snodes)))"

definition dumb_reordering ::
  "('n::linorder) graph \<Rightarrow> ('n \<rightharpoonup> 's) \<Rightarrow> 'n list \<Rightarrow> error + 's list" where
  "dumb_reordering g fusion_meta nodes =
     (let nodes = filter (\<lambda>node. fusion_meta node \<noteq> None) nodes
      in case sink_waits g nodes of
           Inl e \<Rightarrow> Inl e
         | Inr nodes \<Rightarrow>
             (case raise_comms g nodes of
                Inl e \<Rightarrow> Inl e
              | Inr nodes \<Rightarrow> fusion_snodes fusion_meta nodes))"

section \<open>\<^verbatim>\<open>reorder_computation_for_overlap\<close>\<close>

text \<open>
  \<^verbatim>\<open>debug_print\<close> prints only when the environment variable
  \<^verbatim>\<open>INDUCTOR_COMM_DEBUG\<close> is \<^verbatim>\<open>"1"\<close>; \<open>dbg\<close> is that condition.
\<close>

definition debug_print :: "bool \<Rightarrow> event list \<Rightarrow> event list" where
  "debug_print dbg evs = (if dbg then evs @ [Printd] else evs)"

text \<open>The variables that the nested functions of lines 149--177 share and mutate.\<close>

record 'n sched =
  indeg :: "'n \<rightharpoonup> int"
  free_nodes :: "'n set"
  unused_nodes :: "'n set"
  result :: "'n list"
  events :: "event list"

text \<open>
  A step either fails, with the error and the events so far, or returns a value; a
  loop that may not return is option-valued on top of that.
\<close>

type_synonym 'a outcome = "(error \<times> event list) + 'a"

text \<open>Lines 138--142: the number of users' edges that enter each node of \<open>snodes\<close>.\<close>

definition init_indeg :: "'n graph \<Rightarrow> 'n list \<Rightarrow> ('n \<rightharpoonup> int)" where
  "init_indeg g snodes =
     fold (\<lambda>snode. fold (\<lambda>user indeg.
                            case indeg user of
                              None \<Rightarrow> indeg
                            | Some d \<Rightarrow> indeg(user \<mapsto> d + 1)) (node_users g snode))
          snodes (\<lambda>k. if k \<in> set snodes then Some 0 else None)"

text \<open>Lines 149--160.\<close>

definition add_node :: "'n graph \<Rightarrow> bool \<Rightarrow> 'n \<Rightarrow> 'n sched \<Rightarrow> ('n sched) outcome" where
  "add_node g dbg node s =
     (if node \<notin> unused_nodes s then Inl (AssertionError, events s)
      else if node \<notin> free_nodes s then Inl (AssertionError, events s)
      else Inr (fold (\<lambda>user s.
                        case indeg s user of
                          None \<Rightarrow> s
                        | Some d \<Rightarrow>
                            (let s' = s\<lparr>indeg := (indeg s)(user \<mapsto> d - 1)\<rparr>
                             in if d - 1 = 0
                                then s'\<lparr>free_nodes := insert user (free_nodes s')\<rparr>
                                else s'))
                     (node_users g node)
                     (s\<lparr>events := debug_print dbg (events s),
                        free_nodes := free_nodes s - {node},
                        unused_nodes := unused_nodes s - {node},
                        result := result s @ [node]\<rparr>)))"

text \<open>
  One pass of the for loop of lines 170--174 over the sorted snapshot of \<open>all_nodes\<close>;
  the state is \<open>all_nodes\<close>, \<open>progress\<close> and the shared variables.
\<close>

fun add_pass ::
  "'n graph \<Rightarrow> bool \<Rightarrow> 'n list \<Rightarrow> 'n set \<times> bool \<times> 'n sched \<Rightarrow> ('n set \<times> bool \<times> 'n sched) outcome" where
  "add_pass g dbg [] st = Inr st"
| "add_pass g dbg (node # nodes) (all_nodes, progress, s) =
     (if node \<in> free_nodes s
      then (case add_node g dbg node s of
              Inl e \<Rightarrow> Inl e
            | Inr s' \<Rightarrow> add_pass g dbg nodes (all_nodes - {node}, True, s'))
      else add_pass g dbg nodes (all_nodes, progress, s))"

text \<open>
  The while loop of lines 168--177. After a pass without progress the code calls
  \<^verbatim>\<open>breakpoint()\<close> and \<^verbatim>\<open>print()\<close> and goes round the loop again.
\<close>

partial_function (option) add_loop ::
  "('n::linorder) graph \<Rightarrow> bool \<Rightarrow> 'n set \<Rightarrow> 'n sched \<Rightarrow> ('n sched) outcome option" where
  "add_loop g dbg all_nodes s =
     (if all_nodes \<noteq> {}
      then (case add_pass g dbg (tuple_sorted all_nodes) (all_nodes, False, s) of
              Inl e \<Rightarrow> Some (Inl e)
            | Inr (all_nodes', progress, s') \<Rightarrow>
                if \<not> progress
                then add_loop g dbg all_nodes' (s'\<lparr>events := events s' @ [Breakpoint, Print]\<rparr>)
                else add_loop g dbg all_nodes' s')
      else Some (Inr s))"

declare add_loop.simps [code]

text \<open>Lines 162--177; \<open>all_nodes\<close> is the set made of the argument.\<close>

definition add_all_nodes ::
  "('n::linorder) graph \<Rightarrow> bool \<Rightarrow> 'n set \<Rightarrow> 'n sched \<Rightarrow> ('n sched) outcome option" where
  "add_all_nodes g dbg all_nodes s =
     (if \<not> (\<forall>node \<in> all_nodes. node \<in> unused_nodes s)
      then Some (Inl (AssertionError, events s))
      else add_loop g dbg all_nodes s)"

text \<open>Lines 211--215, with the dictionary \<open>comm_ancestors\<close> as a function.\<close>

definition earliest_comm_descendant :: "'n list \<Rightarrow> ('n \<Rightarrow> 'n set) \<Rightarrow> 'n \<Rightarrow> nat" where
  "earliest_comm_descendant comm_nodes comm_ancestors node =
     (case find (\<lambda>idx. node \<in> comm_ancestors (comm_nodes ! idx)) [0..<length comm_nodes] of
        Some idx \<Rightarrow> idx
      | None \<Rightarrow> length comm_nodes)"

text \<open>
  Lines 207--219: the free nodes that do not descend from the previous communication
  node, in name order, then sorted (stably) by the index of the first communication
  node that needs them.
\<close>

definition overlappable_nodes ::
  "('n::linorder) list \<Rightarrow> ('n \<Rightarrow> 'n set) \<Rightarrow> ('n \<Rightarrow> 'n set) \<Rightarrow> nat \<Rightarrow> 'n sched \<Rightarrow> 'n list" where
  "overlappable_nodes comm_nodes comm_ancestors comm_descendants idx s =
     (let overlappable_nodes =
            tuple_sorted (free_nodes s - comm_descendants (comm_nodes ! (idx - 1)))
      in sort_key (earliest_comm_descendant comm_nodes comm_ancestors) overlappable_nodes)"

text \<open>
  The for loop of lines 221--234 over \<open>overlappable_nodes\<close>; the state is
  \<open>total_cost\<close> and the shared variables.
\<close>

fun priority2 ::
  "'n graph \<Rightarrow> bool \<Rightarrow> rat \<Rightarrow> 'n list \<Rightarrow> rat \<times> 'n sched \<Rightarrow> (rat \<times> 'n sched) outcome" where
  "priority2 g dbg comm_cost [] st = Inr st"
| "priority2 g dbg comm_cost (snode # rest) (total_cost, s) =
     (if total_cost \<ge> comm_cost then Inr (total_cost, s)
      else if kind g snode \<noteq> CollectiveKernel
      then (let runtime_cost = runtime g snode
            in if (comm_cost - total_cost) \<le> runtime_cost / 2
               then priority2 g dbg comm_cost rest (total_cost, s)
               else (case add_node g dbg snode s of
                       Inl e \<Rightarrow> Inl e
                     | Inr s' \<Rightarrow> priority2 g dbg comm_cost rest (total_cost + runtime g snode, s')))
      else priority2 g dbg comm_cost rest (total_cost, s))"

text \<open>
  The body of the for loop of lines 182--252 for one \<open>idx\<close>; the state is
  \<open>rolled_over_compute\<close> and the shared variables.
\<close>

definition overlap_step ::
  "('n::linorder) graph \<Rightarrow> bool \<Rightarrow> 'n list \<Rightarrow> ('n \<Rightarrow> 'n set) \<Rightarrow> ('n \<Rightarrow> 'n set) \<Rightarrow> nat \<Rightarrow>
   rat \<times> 'n sched \<Rightarrow> (rat \<times> 'n sched) outcome option" where
  "overlap_step g dbg comm_nodes comm_ancestors comm_descendants idx st =
     (case st of (rolled_over_compute, s) \<Rightarrow>
      let is_comm_blocking =
            (comm_descendants (comm_nodes ! (idx - 1)) \<inter> comm_ancestors (comm_nodes ! idx) \<noteq> {});
          s = s\<lparr>events := debug_print dbg (debug_print dbg (events s))\<rparr>;
          priority1 = unused_nodes s \<inter>
            (comm_ancestors (comm_nodes ! idx) - comm_descendants (comm_nodes ! (idx - 1)));
          total_cost = rolled_over_compute + sum (runtime g) priority1;
          comm_cost = runtime g (comm_nodes ! (idx - 1))
      in (case add_all_nodes g dbg priority1 s of
           None \<Rightarrow> None
         | Some (Inl e) \<Rightarrow> Some (Inl e)
         | Some (Inr s) \<Rightarrow>
            (let s = s\<lparr>events := debug_print dbg (events s)\<rparr>;
                 group1_cost = total_cost
             in (case (if total_cost \<ge> comm_cost then Inr (total_cost, s)
                      else priority2 g dbg comm_cost
                             (overlappable_nodes comm_nodes comm_ancestors comm_descendants idx s)
                             (total_cost, s)) of
                  Inl e \<Rightarrow> Some (Inl e)
                | Inr (total_cost, s) \<Rightarrow>
                   (let rollable_compute = total_cost - group1_cost;
                        rolled_over_compute = (if is_comm_blocking then 0 else rollable_compute);
                        s = s\<lparr>events := debug_print dbg (debug_print dbg (events s))\<rparr>;
                        priority3 = unused_nodes s \<inter> comm_ancestors (comm_nodes ! idx)
                    in (case add_all_nodes g dbg (insert (comm_nodes ! idx) priority3) s of
                         None \<Rightarrow> None
                       | Some (Inl e) \<Rightarrow> Some (Inl e)
                       | Some (Inr s) \<Rightarrow>
                           Some (Inr (rolled_over_compute,
                                      s\<lparr>events := debug_print dbg (events s)\<rparr>))))))))"

fun overlap_loop ::
  "('n::linorder) graph \<Rightarrow> bool \<Rightarrow> 'n list \<Rightarrow> ('n \<Rightarrow> 'n set) \<Rightarrow> ('n \<Rightarrow> 'n set) \<Rightarrow> nat list \<Rightarrow>
   rat \<times> 'n sched \<Rightarrow> (rat \<times> 'n sched) outcome option" where
  "overlap_loop g dbg comm_nodes comm_ancestors comm_descendants [] st = Some (Inr st)"
| "overlap_loop g dbg comm_nodes comm_ancestors comm_descendants (idx # idxs) st =
     (case overlap_step g dbg comm_nodes comm_ancestors comm_descendants idx st of
        None \<Rightarrow> None
      | Some (Inl e) \<Rightarrow> Some (Inl e)
      | Some (Inr st') \<Rightarrow> overlap_loop g dbg comm_nodes comm_ancestors comm_descendants idxs st')"

text \<open>
  The dictionaries of lines 135--136: one traversal per communication node, looked up
  by node afterwards.
\<close>

definition comm_dict :: "'n list \<Rightarrow> 'n set list \<Rightarrow> 'n \<Rightarrow> 'n set" where
  "comm_dict comm_nodes sets node =
     (case map_of (zip comm_nodes sets) node of Some x \<Rightarrow> x | None \<Rightarrow> {})"

text \<open>
  Lines 116--260. The result is the returned sequence with the events, or the error
  with the events; \<open>None\<close> when the call does not return.
\<close>

definition reorder_computation_for_overlap ::
  "('n::linorder) graph \<Rightarrow> bool \<Rightarrow> 'n list \<Rightarrow> ('n list \<times> event list) outcome option" where
  "reorder_computation_for_overlap g dbg snodes =
     (let comm_nodes = filter (\<lambda>snode. kind g snode = CollectiveKernel) snodes
      in if length comm_nodes = 0 then Some (Inr (snodes, []))
         else
          case those (map (get_ancestors g) comm_nodes) of
            None \<Rightarrow> None
          | Some ancs \<Rightarrow>
         (case those (map (get_descendants g) comm_nodes) of
            None \<Rightarrow> None
          | Some descs \<Rightarrow>
           (let comm_ancestors = comm_dict comm_nodes ancs;
                comm_descendants = comm_dict comm_nodes descs;
                indeg = init_indeg g snodes;
                s = \<lparr>indeg = indeg,
                     free_nodes = set (filter (\<lambda>node. indeg node = Some 0) snodes),
                     unused_nodes = set snodes,
                     result = [],
                     events = [Breakpoint]\<rparr>
            in (case add_all_nodes g dbg
                      (insert (comm_nodes ! 0) (comm_ancestors (comm_nodes ! 0))) s of
                 None \<Rightarrow> None
               | Some (Inl e) \<Rightarrow> Some (Inl e)
               | Some (Inr s) \<Rightarrow>
              (case overlap_loop g dbg comm_nodes comm_ancestors comm_descendants
                      [1..<length (remdups comm_nodes)] (0, s) of
                 None \<Rightarrow> None
               | Some (Inl e) \<Rightarrow> Some (Inl e)
               | Some (Inr (rolled_over_compute, s)) \<Rightarrow>
              (case add_all_nodes g dbg (unused_nodes s) s of
                 None \<Rightarrow> None
               | Some (Inl e) \<Rightarrow> Some (Inl e)
               | Some (Inr s) \<Rightarrow>
              (case sink_waits g (result s) of
                 Inl e \<Rightarrow> Some (Inl (e, events s))
               | Inr result1 \<Rightarrow>
              (case raise_comms g result1 of
                 Inl e \<Rightarrow> Some (Inl (e, events s))
               | Inr result2 \<Rightarrow> Some (Inr (result2, events s @ [Printd]))))))))))"

text \<open>
  Lines 135--254 on their own: what \<^verbatim>\<open>reorder_computation_for_overlap\<close> does between
  the guard of line 132 and the two passes of lines 256--257. The \<open>result\<close> of the state
  it returns is the schedule handed to \<^verbatim>\<open>sink_waits\<close>.
\<close>

definition overlap_schedule ::
  "('n::linorder) graph \<Rightarrow> bool \<Rightarrow> 'n list \<Rightarrow> 'n list \<Rightarrow> ('n sched) outcome option" where
  "overlap_schedule g dbg snodes comm_nodes =
     (case those (map (get_ancestors g) comm_nodes) of
        None \<Rightarrow> None
      | Some ancs \<Rightarrow>
     (case those (map (get_descendants g) comm_nodes) of
        None \<Rightarrow> None
      | Some descs \<Rightarrow>
       (let comm_ancestors = comm_dict comm_nodes ancs;
            comm_descendants = comm_dict comm_nodes descs;
            indeg = init_indeg g snodes;
            s = \<lparr>indeg = indeg,
                 free_nodes = set (filter (\<lambda>node. indeg node = Some 0) snodes),
                 unused_nodes = set snodes,
                 result = [],
                 events = [Breakpoint]\<rparr>
        in (case add_all_nodes g dbg
                  (insert (comm_nodes ! 0) (comm_ancestors (comm_nodes ! 0))) s of
             None \<Rightarrow> None
           | Some (Inl e) \<Rightarrow> Some (Inl e)
           | Some (Inr s) \<Rightarrow>
          (case overlap_loop g dbg comm_nodes comm_ancestors comm_descendants
                  [1..<length (remdups comm_nodes)] (0, s) of
             None \<Rightarrow> None
           | Some (Inl e) \<Rightarrow> Some (Inl e)
           | Some (Inr (rolled_over_compute, s)) \<Rightarrow>
               add_all_nodes g dbg (unused_nodes s) s)))))"

text \<open>The step of lines 156--160 for one user, as \<^verbatim>\<open>add_node\<close> folds it.\<close>

abbreviation (input) users_step :: "'n \<Rightarrow> 'n sched \<Rightarrow> 'n sched" where
  "users_step \<equiv> (\<lambda>user s.
                        case indeg s user of
                          None \<Rightarrow> s
                        | Some d \<Rightarrow>
                            (let s' = s\<lparr>indeg := (indeg s)(user \<mapsto> d - 1)\<rparr>
                             in if d - 1 = 0
                                then s'\<lparr>free_nodes := insert user (free_nodes s')\<rparr>
                                else s'))"

section \<open>Properties of schedules\<close>

text \<open>
  An edge \<open>a \<rightarrow> b\<close> is a true dependency (\<open>b\<close> is a user of \<open>a\<close>) or a synthetic one
  (\<open>a\<close> is among the weak dependencies of \<open>b\<close>). \<open>index_of xs a\<close> is the first position
  of \<open>a\<close> in \<open>xs\<close>, as \<^verbatim>\<open>xs.index(a)\<close>, and \<open>length xs\<close> when \<open>a\<close> is absent.
\<close>

definition edge :: "'n graph \<Rightarrow> 'n \<Rightarrow> 'n \<Rightarrow> bool" where
  "edge g a b \<longleftrightarrow> b \<in> set (node_users g a) \<or> a \<in> set (mutation_deps g b)"

fun index_of :: "'a list \<Rightarrow> 'a \<Rightarrow> nat" where
  "index_of [] a = 0"
| "index_of (x # xs) a = (if x = a then 0 else Suc (index_of xs a))"

definition dep_ordered :: "'n graph \<Rightarrow> 'n list \<Rightarrow> bool" where
  "dep_ordered g xs \<longleftrightarrow>
     (\<forall>a \<in> set xs. \<forall>b \<in> set xs. edge g a b \<longrightarrow> index_of xs a < index_of xs b)"

text \<open>
  What holds of the shared variables between two calls of \<^verbatim>\<open>add_node\<close>: the schedule
  and the unused nodes split the input, \<open>indeg\<close> counts for every input node the edges
  that enter it from unused nodes, a free node has none, and every scheduled node comes
  after all input nodes that have it as a user.
\<close>

definition sched_inv :: "'n graph \<Rightarrow> 'n list \<Rightarrow> 'n sched \<Rightarrow> bool" where
  "sched_inv g snodes s \<longleftrightarrow>
     distinct (result s)
     \<and> set (result s) \<inter> unused_nodes s = {}
     \<and> set (result s) \<union> unused_nodes s = set snodes
     \<and> (\<forall>u. indeg s u =
            (if u \<in> set snodes
             then Some (\<Sum>a \<in> unused_nodes s. int (count_list (node_users g a) u))
             else None))
     \<and> (\<forall>u \<in> free_nodes s. indeg s u = Some 0)
     \<and> (\<forall>a \<in> set snodes. \<forall>b \<in> set (result s).
            b \<in> set (node_users g a) \<longrightarrow>
            a \<in> set (result s) \<and> index_of (result s) a < index_of (result s) b)"

text \<open>
  The wording of the specification for the second priority: a candidate is skipped
  when its cost cannot fill more than half of the remaining gap.
\<close>

definition spec_skips_candidate :: "rat \<Rightarrow> rat \<Rightarrow> rat \<Rightarrow> bool" where
  "spec_skips_candidate comm_cost total_cost runtime_cost \<longleftrightarrow>
     \<not> (runtime_cost > (comm_cost - total_cost) / 2)"

section \<open>Example graphs\<close>

text \<open>Scenario A: compute \<open>A\<close>, communication \<open>B\<close> that reads it, compute \<open>C\<close> that reads \<open>B\<close>.\<close>

definition scenario_A :: "string graph" where
  "scenario_A =
     \<lparr>kind = (\<lambda>n. if n = ''B'' then CollectiveKernel else Compute),
      node_users = (\<lambda>n. if n = ''A'' then [''B''] else if n = ''B'' then [''C''] else []),
      inverse_users = (\<lambda>n. if n = ''C'' then [''B''] else if n = ''B'' then [''A''] else []),
      args = (\<lambda>n. if n = ''C'' then [''B''] else if n = ''B'' then [''A''] else []),
      runtime = (\<lambda>n. if n = ''B'' then 10 else 1),
      mutation_deps = (\<lambda>n. [])\<rparr>"

text \<open>Scenario C: a wait whose only user is \<open>D\<close>, and an unrelated compute \<open>X\<close>.\<close>

definition scenario_C :: "string graph" where
  "scenario_C =
     \<lparr>kind = (\<lambda>n. if n = ''WAIT'' then Wait else Compute),
      node_users = (\<lambda>n. if n = ''WAIT'' then [''D''] else []),
      inverse_users = (\<lambda>n. if n = ''D'' then [''WAIT''] else []),
      args = (\<lambda>n. if n = ''D'' then [''WAIT''] else []),
      runtime = (\<lambda>n. 1),
      mutation_deps = (\<lambda>n. [])\<rparr>"

text \<open>Communication nodes without any edge between them.\<close>

definition independent_comms :: "string graph" where
  "independent_comms =
     \<lparr>kind = (\<lambda>n. CollectiveKernel),
      node_users = (\<lambda>n. []),
      inverse_users = (\<lambda>n. []),
      args = (\<lambda>n. []),
      runtime = (\<lambda>n. 1),
      mutation_deps = (\<lambda>n. [])\<rparr>"

text \<open>Computes \<open>A\<close> and \<open>B\<close> that read each other, and a communication \<open>C\<close> that reads \<open>B\<close>.\<close>

definition cyclic :: "string graph" where
  "cyclic =
     \<lparr>kind = (\<lambda>n. if n = ''C'' then CollectiveKernel else Compute),
      node_users = (\<lambda>n. if n = ''A'' then [''B'']
                         else if n = ''B'' then [''A'', ''C''] else []),
      inverse_users = (\<lambda>n. if n = ''A'' then [''B''] else if n = ''B'' then [''A'']
                            else if n = ''C'' then [''B''] else []),
      args = (\<lambda>n. if n = ''A'' then [''B''] else if n = ''B'' then [''A'']
                   else if n = ''C'' then [''B''] else []),
      runtime = (\<lambda>n. 1),
      mutation_deps = (\<lambda>n. [])\<rparr>"

text \<open>Compute nodes only: a chain \<open>A \<rightarrow> B \<rightarrow> C\<close>.\<close>

definition compute_chain :: "string graph" where
  "compute_chain =
     \<lparr>kind = (\<lambda>n. Compute),
      node_users = (\<lambda>n. if n = ''A'' then [''B''] else if n = ''B'' then [''C''] else []),
      inverse_users = (\<lambda>n. if n = ''C'' then [''B''] else if n = ''B'' then [''A''] else []),
      args = (\<lambda>n. if n = ''C'' then [''B''] else if n = ''B'' then [''A''] else []),
      runtime = (\<lambda>n. 1),
      mutation_deps = (\<lambda>n. [])\<rparr>"

text \<open>Compute nodes only: \<open>P\<close> and its user \<open>Q\<close>.\<close>

definition compute_pair :: "string graph" where
  "compute_pair =
     \<lparr>kind = (\<lambda>n. Compute),
      node_users = (\<lambda>n. if n = ''P'' then [''Q''] else []),
      inverse_users = (\<lambda>n. if n = ''Q'' then [''P''] else []),
      args = (\<lambda>n. if n = ''Q'' then [''P''] else []),
      runtime = (\<lambda>n. 1),
      mutation_deps = (\<lambda>n. [])\<rparr>"

text \<open>
  Compute \<open>A\<close> read by the communication \<open>P\<close>, an unrelated compute \<open>X\<close>, and the
  communication \<open>Q\<close> read by the compute \<open>D\<close>.
\<close>

definition overlap_example :: "string graph" where
  "overlap_example =
     \<lparr>kind = (\<lambda>n. if n = ''P'' \<or> n = ''Q'' then CollectiveKernel else Compute),
      node_users = (\<lambda>n. if n = ''A'' then [''P''] else if n = ''Q'' then [''D''] else []),
      inverse_users = (\<lambda>n. if n = ''P'' then [''A''] else if n = ''D'' then [''Q''] else []),
      args = (\<lambda>n. if n = ''P'' then [''A''] else if n = ''D'' then [''Q''] else []),
      runtime = (\<lambda>n. if n = ''P'' then 10 else 1),
      mutation_deps = (\<lambda>n. [])\<rparr>"

text \<open>
  A free, unscheduled compute node \<open>X\<close> of a given cost, as the second priority
  meets it.
\<close>

definition single_candidate :: "rat \<Rightarrow> string graph" where
  "single_candidate cost =
     \<lparr>kind = (\<lambda>n. Compute),
      node_users = (\<lambda>n. []),
      inverse_users = (\<lambda>n. []),
      args = (\<lambda>n. []),
      runtime = (\<lambda>n. cost),
      mutation_deps = (\<lambda>n. [])\<rparr>"

definition single_candidate_state :: "string sched" where
  "single_candidate_state =
     \<lparr>indeg = [''X'' \<mapsto> 0], free_nodes = {''X''}, unused_nodes = {''X''},
      result = [], events = []\<rparr>"

text \<open>Two waits, of which only \<open>W1\<close> has the key \<^verbatim>\<open>"fusion_meta"\<close> in its \<^verbatim>\<open>meta\<close>.\<close>

definition two_waits :: "string graph" where
  "two_waits =
     \<lparr>kind = (\<lambda>n. Wait),
      node_users = (\<lambda>n. []),
      inverse_users = (\<lambda>n. []),
      args = (\<lambda>n. []),
      runtime = (\<lambda>n. 1),
      mutation_deps = (\<lambda>n. [])\<rparr>"

definition only_W1_meta :: "string \<rightharpoonup> string" where
  "only_W1_meta = [''W1'' \<mapsto> ''snode_W1'']"

section \<open>The wait-sinking pass\<close>

text \<open>
  The pass returns a sequence only when every node of its input is a wait; the pending
  waits are then emitted in name order, each once.
\<close>

lemma sink_waits_loop_Inr:
  "sink_waits_loop g xs (nr, cw) = Inr (nr', cw') \<Longrightarrow>
     (\<forall>x \<in> set xs. kind g x = Wait) \<and> nr' = nr \<and> cw' = cw \<union> set xs"
  by (induction xs arbitrary: cw) (auto split: if_splits prod.splits)

lemma sink_waits_Inr:
  "sink_waits g xs = Inr out \<Longrightarrow>
     (\<forall>x \<in> set xs. kind g x = Wait) \<and> out = sorted_list_of_set (set xs)"
  by (auto simp: sink_waits_def tuple_sorted_def split: sum.splits dest: sink_waits_loop_Inr)

text \<open>
  Claim C4, on Scenario C. The specification asks for \<open>[X, WAIT, D]\<close>. The code reaches
  line 33 at \<open>X\<close>, the first node that is not a wait, and raises
  \<^verbatim>\<open>UnboundLocalError\<close>: no sequence is returned.
\<close>

theorem sink_waits_scenario_C_raises:
  "sink_waits scenario_C [''WAIT'', ''X'', ''D''] = Inl UnboundLocalError"
  by code_simp

section \<open>The comm-raising pass\<close>

text \<open>The pass moves nodes between its two lists and loses none.\<close>

lemma raise_flush_mset:
  "raise_flush g snode nr cc = (nr', cc') \<Longrightarrow> mset nr' + mset cc' = mset nr + mset cc"
  by (induction g snode nr cc rule: raise_flush.induct) (auto split: if_splits)

lemma raise_fold_mset:
  "fold (\<lambda>snode (new_result, cur_comms).
             if kind g snode = CollectiveKernel
             then (new_result, cur_comms @ [snode])
             else (case raise_flush g snode new_result cur_comms of
                     (new_result', cur_comms') \<Rightarrow> (new_result' @ [snode], cur_comms')))
          xs (nr, cc) = (nr', cc') \<Longrightarrow> mset nr' + mset cc' = mset nr + mset cc + mset xs"
proof (induction xs arbitrary: nr cc)
  case Nil
  then show ?case by simp
next
  case (Cons x xs)
  show ?case
  proof (cases "kind g x = CollectiveKernel")
    case True
    with Cons.prems Cons.IH[of nr "cc @ [x]"] show ?thesis by simp
  next
    case False
    obtain nr1 cc1 where f: "raise_flush g x nr cc = (nr1, cc1)" by force
    from raise_flush_mset[OF f] have "mset nr1 + mset cc1 = mset nr + mset cc" .
    with False f Cons.prems Cons.IH[of "nr1 @ [x]" cc1] show ?thesis by (simp add: add.assoc add.commute) 
  qed
qed

lemma raise_scan_mset:
  "raise_scan g xs = (nr, cc) \<Longrightarrow> mset nr + mset cc = mset xs"
  unfolding raise_scan_def using raise_fold_mset[of g "rev xs" "[]" "[]" nr cc] by simp

lemma raise_comms_mset:
  "raise_comms g xs = Inr out \<Longrightarrow> mset out = mset xs"
  by (auto simp: raise_comms_def tuple_sorted_list_def add.commute split: prod.splits if_splits dest!: raise_scan_mset)

text \<open>Only communication nodes of the input are ever pending.\<close>

lemma raise_flush_pending:
  "raise_flush g snode nr cc = (nr', cc') \<Longrightarrow> set cc' \<subseteq> set cc"
  by (induction g snode nr cc rule: raise_flush.induct) (auto split: if_splits)

lemma raise_fold_pending:
  "fold (\<lambda>snode (new_result, cur_comms).
             if kind g snode = CollectiveKernel
             then (new_result, cur_comms @ [snode])
             else (case raise_flush g snode new_result cur_comms of
                     (new_result', cur_comms') \<Rightarrow> (new_result' @ [snode], cur_comms')))
          xs (nr, cc) = (nr', cc') \<Longrightarrow>
     set cc' \<subseteq> set cc \<union> {x \<in> set xs. kind g x = CollectiveKernel}"
proof (induction xs arbitrary: nr cc)
  case Nil
  then show ?case by simp
next
  case (Cons x xs)
  show ?case
  proof (cases "kind g x = CollectiveKernel")
    case True
    with Cons.prems Cons.IH[of nr "cc @ [x]"] show ?thesis by auto
  next
    case False
    obtain nr1 cc1 where f: "raise_flush g x nr cc = (nr1, cc1)" by force
    from raise_flush_pending[OF f] have "set cc1 \<subseteq> set cc" .
    with False f Cons.prems Cons.IH[of "nr1 @ [x]" cc1] show ?thesis by auto
  qed
qed

lemma raise_scan_pending:
  "c \<in> set (snd (raise_scan g xs)) \<Longrightarrow> c \<in> set xs \<and> kind g c = CollectiveKernel"
proof -
  assume c: "c \<in> set (snd (raise_scan g xs))"
  obtain nr cc where r: "raise_scan g xs = (nr, cc)" by force
  from raise_fold_pending[OF r[unfolded raise_scan_def]] c r show ?thesis by auto
qed

text \<open>
  Claim C6. \<^verbatim>\<open>raise_comms\<close> fails, with an assertion failure and no sequence, exactly
  when more than one communication node is pending at the end of the reverse scan; it
  returns a sequence exactly when at most one is pending, and it fails in no other way.
  The pending nodes are communication nodes of the input.
\<close>

theorem raise_comms_pending_assertion:
  "(raise_comms g xs = Inl AssertionError) = (1 < length (snd (raise_scan g xs)))
   \<and> (\<exists>out. raise_comms g xs = Inr out) = (length (snd (raise_scan g xs)) \<le> 1)
   \<and> (\<forall>e. raise_comms g xs = Inl e \<longrightarrow> e = AssertionError)
   \<and> (\<forall>c \<in> set (snd (raise_scan g xs)). c \<in> set xs \<and> kind g c = CollectiveKernel)"
proof (intro conjI)
  show "(raise_comms g xs = Inl AssertionError) = (1 < length (snd (raise_scan g xs)))"
    by (auto simp: raise_comms_def split: prod.splits if_splits)
  show "(\<exists>out. raise_comms g xs = Inr out) = (length (snd (raise_scan g xs)) \<le> 1)"
    by (auto simp: raise_comms_def split: prod.splits if_splits)
  show "\<forall>e. raise_comms g xs = Inl e \<longrightarrow> e = AssertionError"
    by (auto simp: raise_comms_def split: prod.splits if_splits)
  show "\<forall>c \<in> set (snd (raise_scan g xs)). c \<in> set xs \<and> kind g c = CollectiveKernel"
    by (intro ballI) (rule raise_scan_pending)
qed

theorem raise_comms_pending_assertion_witness:
  "length (snd (raise_scan independent_comms [''C1'', ''C2''])) = 2
   \<and> raise_comms independent_comms [''C1'', ''C2''] = Inl AssertionError"
proof -
  have pending: "length (snd (raise_scan independent_comms [''C1'', ''C2''])) = 2"
    by code_simp
  with raise_comms_pending_assertion [of independent_comms "[''C1'', ''C2'']"]
  have "raise_comms independent_comms [''C1'', ''C2''] = Inl AssertionError"
    by simp
  with pending show ?thesis by simp
qed

section \<open>The simple reordering\<close>

lemma fusion_snodes_Inr:
  "fusion_snodes fm xs = Inr out \<Longrightarrow> out = map (\<lambda>n. the (fm n)) xs \<and> (\<forall>x \<in> set xs. fm x \<noteq> None)"
  by (induction xs arbitrary: out) (auto split: option.splits sum.splits)

lemma fusion_snodes_filter:
  "fusion_snodes fm xs = Inr out \<Longrightarrow> \<forall>s \<in> set out. \<exists>node \<in> set xs. fm node = Some s"
  by (induction xs arbitrary: out) (auto split: option.splits sum.splits)

lemma dumb_reordering_Inr:
  assumes "dumb_reordering g fm nodes = Inr out"
  shows "length out \<le> length (filter (\<lambda>node. fm node \<noteq> None) nodes)"
    and "\<forall>s \<in> set out. \<exists>node \<in> set nodes. fm node = Some s"
proof -
  let ?kept = "filter (\<lambda>node. fm node \<noteq> None) nodes"
  from assms obtain ys zs where
    ys: "sink_waits g ?kept = Inr ys" and zs: "raise_comms g ys = Inr zs"
    and out: "fusion_snodes fm zs = Inr out"
    by (auto simp: dumb_reordering_def Let_def split: sum.splits)
  from sink_waits_Inr[OF ys] have ys_eq: "ys = sorted_list_of_set (set ?kept)" by simp
  have "length ys = card (set ?kept)" unfolding ys_eq by simp
  also have "\<dots> \<le> length ?kept" by (rule card_length)
  finally have l1: "length ys \<le> length ?kept" .
  from raise_comms_mset[OF zs] have m: "mset zs = mset ys" .
  then have l2: "length zs = length ys" by (metis size_mset)
  from fusion_snodes_Inr[OF out] have l3: "length out = length zs" by simp
  from l1 l2 l3 show "length out \<le> length ?kept" by simp
  have "set zs = set ys" using m by (metis set_mset_mset)
  also have "\<dots> = set ?kept" unfolding ys_eq by simp
  finally have "set zs \<subseteq> set nodes" by auto
  with fusion_snodes_filter[OF out] show "\<forall>s \<in> set out. \<exists>node \<in> set nodes. fm node = Some s"
    by blast
qed

text \<open>
  Claim C10. \<^verbatim>\<open>dumb_reordering\<close> discards the nodes without \<^verbatim>\<open>"fusion_meta"\<close>
  before anything else: its outcome is the outcome on the nodes that are left. When it
  returns and the input had such a node, the output is shorter than the input, so it is
  a permutation of the input under no renaming, and every element of the output is the
  scheduler node of an input node that has the key.
\<close>

theorem dumb_reordering_discards_nodes_without_fusion_meta:
  "dumb_reordering g fm nodes = dumb_reordering g fm (filter (\<lambda>node. fm node \<noteq> None) nodes)
   \<and> (\<forall>out. dumb_reordering g fm nodes = Inr out \<longrightarrow> (\<exists>node \<in> set nodes. fm node = None) \<longrightarrow>
          length out < length nodes \<and> (\<forall>f. mset out \<noteq> mset (map f nodes))
          \<and> (\<forall>s \<in> set out. \<exists>node \<in> set nodes. fm node = Some s))"
proof -
  have first: "dumb_reordering g fm nodes = dumb_reordering g fm (filter (\<lambda>node. fm node \<noteq> None) nodes)"
    by (simp add: dumb_reordering_def)
  have rest: "length out < length nodes \<and> (\<forall>f. mset out \<noteq> mset (map f nodes))
          \<and> (\<forall>s \<in> set out. \<exists>node \<in> set nodes. fm node = Some s)"
    if r: "dumb_reordering g fm nodes = Inr out" and d: "\<exists>node \<in> set nodes. fm node = None"
    for out
  proof -
    from d have "length (filter (\<lambda>node. fm node \<noteq> None) nodes) < length nodes"
      by (auto intro: length_filter_less)
    with dumb_reordering_Inr(1)[OF r] have lt: "length out < length nodes" by simp
    have "mset out \<noteq> mset (map f nodes)" for f
    proof
      assume "mset out = mset (map f nodes)"
      then have "length out = length (map f nodes)" by (metis size_mset)
      with lt show False by simp
    qed
    with lt dumb_reordering_Inr(2)[OF r] show ?thesis by blast
  qed
  from first rest show ?thesis by blast
qed

theorem dumb_reordering_discards_witness:
  "dumb_reordering two_waits only_W1_meta [''W1'', ''W2''] = Inr [''snode_W1'']
   \<and> only_W1_meta ''W2'' = None
   \<and> length [''snode_W1''] < length [''W1'', ''W2'']
   \<and> mset [''snode_W1''] \<noteq> mset (map id [''W1'', ''W2''])"
proof -
  have r: "dumb_reordering two_waits only_W1_meta [''W1'', ''W2''] = Inr [''snode_W1'']"
    by code_simp
  have d: "\<exists>node \<in> set [''W1'', ''W2'']. only_W1_meta node = None"
    by (simp add: only_W1_meta_def)
  from dumb_reordering_discards_nodes_without_fusion_meta
         [of two_waits only_W1_meta "[''W1'', ''W2'']"] r d
  have "length [''snode_W1''] < length [''W1'', ''W2'']
        \<and> mset [''snode_W1''] \<noteq> mset (map id [''W1'', ''W2''])"
    by blast
  with r show ?thesis by (simp add: only_W1_meta_def)
qed

section \<open>The global communication order\<close>

text \<open>
  \<^verbatim>\<open>decide_global_ordering_comms\<close> records, for every \<open>i \<ge> 1\<close>, the communication
  node \<open>i - 1\<close> as a dependency of the communication node \<open>i\<close>, and changes nothing
  that the scheduler reads.
\<close>

lemma add_mutation_dep_step:
  "d \<in> set (mutation_deps g n) \<Longrightarrow> d \<in> set (mutation_deps (add_mutation_dep g m e) n)"
  by (auto simp: add_mutation_dep_def)

lemma add_mutation_dep_keeps:
  "d \<in> set (mutation_deps g n) \<Longrightarrow>
     d \<in> set (mutation_deps (fold (\<lambda>i g. add_mutation_dep g (cn ! i) (cn ! (i - 1))) is g) n)"
proof (induction "is" arbitrary: g)
  case Nil
  then show ?case by simp
next
  case (Cons j js)
  from Cons.IH[OF add_mutation_dep_step[OF Cons.prems]] show ?case by simp
qed

lemma add_mutation_dep_adds:
  "i \<in> set is \<Longrightarrow>
     cn ! (i - 1) \<in> set (mutation_deps (fold (\<lambda>i g. add_mutation_dep g (cn ! i) (cn ! (i - 1))) is g) (cn ! i))"
proof (induction "is" arbitrary: g)
  case Nil
  then show ?case by simp
next
  case (Cons j js)
  show ?case
  proof (cases "i = j")
    case True
    have "cn ! (i - 1) \<in> set (mutation_deps (add_mutation_dep g (cn ! i) (cn ! (i - 1))) (cn ! i))"
      by (simp add: add_mutation_dep_def)
    from add_mutation_dep_keeps[OF this] True show ?thesis by simp
  next
    case False
    with Cons show ?thesis by simp
  qed
qed

lemma decide_global_ordering_comms_adds_dep:
  assumes "comm_nodes = filter (\<lambda>n. kind g n = CollectiveKernel) nodes"
    and "1 \<le> i" and "i < length comm_nodes"
  shows "comm_nodes ! (i - 1)
           \<in> set (mutation_deps (decide_global_ordering_comms g nodes) (comm_nodes ! i))"
  using assms add_mutation_dep_adds[of i "[1..<length comm_nodes]" comm_nodes g]
  by (simp add: decide_global_ordering_comms_def Let_def)

lemma add_mutation_dep_fields:
  "kind (add_mutation_dep g m e) = kind g"
  "node_users (add_mutation_dep g m e) = node_users g"
  "inverse_users (add_mutation_dep g m e) = inverse_users g"
  by (simp_all add: add_mutation_dep_def)

lemma add_mutation_dep_fold_fields:
  "kind (fold (\<lambda>i g. add_mutation_dep g (cn ! i) (cn ! (i - 1))) is g) = kind g
   \<and> node_users (fold (\<lambda>i g. add_mutation_dep g (cn ! i) (cn ! (i - 1))) is g) = node_users g
   \<and> inverse_users (fold (\<lambda>i g. add_mutation_dep g (cn ! i) (cn ! (i - 1))) is g) = inverse_users g"
  by (induction "is" arbitrary: g) (simp_all add: add_mutation_dep_fields)

lemma decide_global_ordering_comms_fields:
  "kind (decide_global_ordering_comms g nodes) = kind g"
  "node_users (decide_global_ordering_comms g nodes) = node_users g"
  "inverse_users (decide_global_ordering_comms g nodes) = inverse_users g"
  unfolding decide_global_ordering_comms_def Let_def
  using add_mutation_dep_fold_fields by blast+

section \<open>The overlap scheduler\<close>

text \<open>
  Scheduling a node appends it to \<open>result\<close>; nothing ever leaves \<open>result\<close>, and a
  call of \<^verbatim>\<open>add_all_nodes\<close> that returns has scheduled every node it was given.
\<close>

lemma add_node_users_result:
  "result (fold (\<lambda>user s.
                        case indeg s user of
                          None \<Rightarrow> s
                        | Some d \<Rightarrow>
                            (let s' = s\<lparr>indeg := (indeg s)(user \<mapsto> d - 1)\<rparr>
                             in if d - 1 = 0
                                then s'\<lparr>free_nodes := insert user (free_nodes s')\<rparr>
                                else s')) users s) = result s"
  by (induction users arbitrary: s) (auto simp: Let_def split: option.splits)

lemma add_node_result:
  "add_node g dbg node s = Inr s' \<Longrightarrow> result s' = result s @ [node]"
  by (auto simp: add_node_def add_node_users_result split: if_splits)

lemma add_pass_result:
  "add_pass g dbg nodes (all_nodes, progress, s) = Inr (all_nodes', progress', s') \<Longrightarrow>
     set (result s) \<subseteq> set (result s') \<and> all_nodes \<subseteq> all_nodes' \<union> set (result s')"
proof (induction nodes arbitrary: all_nodes progress s)
  case Nil
  then show ?case by simp
next
  case (Cons node nodes)
  show ?case
  proof (cases "node \<in> free_nodes s")
    case True
    with Cons.prems obtain s1 where a: "add_node g dbg node s = Inr s1"
      and p: "add_pass g dbg nodes (all_nodes - {node}, True, s1) = Inr (all_nodes', progress', s')"
      by (auto split: sum.splits)
    from Cons.IH[OF p] add_node_result[OF a] show ?thesis by auto
  next
    case False
    with Cons.prems Cons.IH[of all_nodes progress s] show ?thesis by simp
  qed
qed

lemma add_loop_result_aux:
  assumes "add_loop g dbg all_nodes s = Some r"
  shows "\<forall>s'. r = Inr s' \<longrightarrow> all_nodes \<subseteq> set (result s') \<and> set (result s) \<subseteq> set (result s')"
proof (rule add_loop.raw_induct
         [where P = "\<lambda>g dbg all_nodes s r.
                       \<forall>s'. r = Inr s' \<longrightarrow> all_nodes \<subseteq> set (result s') \<and> set (result s) \<subseteq> set (result s')",
          OF _ assms], goal_cases)
  case (1 f g dbg all_nodes s r)
  note IH = "1"(1) and eq = "1"(2)
  show ?case
  proof (cases "all_nodes = {}")
    case True
    with eq show ?thesis by auto
  next
    case False
    show ?thesis
    proof (intro allI impI)
      fix s' assume r: "r = Inr s'"
      from False eq r obtain all1 progress s1 where
        p: "add_pass g dbg (tuple_sorted all_nodes) (all_nodes, False, s) = Inr (all1, progress, s1)"
        by (auto split: sum.splits)
      from add_pass_result[OF p] have
        a: "set (result s) \<subseteq> set (result s1)" "all_nodes \<subseteq> all1 \<union> set (result s1)" by auto
      show "all_nodes \<subseteq> set (result s') \<and> set (result s) \<subseteq> set (result s')"
      proof (cases progress)
        case True
        with False p eq r have "f g dbg all1 s1 = Some (Inr s')" by simp
        from IH[OF this] a show ?thesis by auto
      next
        case f: False
        with False p eq r have
          "f g dbg all1 (s1\<lparr>events := events s1 @ [Breakpoint, Print]\<rparr>) = Some (Inr s')" by simp
        from IH[OF this] a show ?thesis by auto
      qed
    qed
  qed
qed

lemma add_loop_result:
  "add_loop g dbg all_nodes s = Some (Inr s') \<Longrightarrow>
     all_nodes \<subseteq> set (result s') \<and> set (result s) \<subseteq> set (result s')"
  using add_loop_result_aux by blast

lemma add_all_nodes_result:
  "add_all_nodes g dbg all_nodes s = Some (Inr s') \<Longrightarrow>
     all_nodes \<subseteq> set (result s') \<and> set (result s) \<subseteq> set (result s')"
  by (auto simp: add_all_nodes_def split: if_splits dest: add_loop_result)

lemma priority2_result:
  "priority2 g dbg comm_cost xs (total_cost, s) = Inr (total_cost', s') \<Longrightarrow>
     set (result s) \<subseteq> set (result s') \<and> set (result s') \<subseteq> set (result s) \<union> set xs"
proof (induction xs arbitrary: total_cost s)
  case Nil
  then show ?case by simp
next
  case (Cons x xs)
  show ?case
  proof (cases "comm_cost \<le> total_cost")
    case True
    with Cons.prems show ?thesis by auto
  next
    case nb: False
    show ?thesis
    proof (cases "kind g x \<noteq> CollectiveKernel \<and> \<not> (comm_cost - total_cost \<le> runtime g x / 2)")
      case True
      with nb Cons.prems obtain s1 where a: "add_node g dbg x s = Inr s1"
        and p: "priority2 g dbg comm_cost xs (total_cost + runtime g x, s1) = Inr (total_cost', s')"
        by (auto simp: Let_def split: sum.splits)
      from Cons.IH[OF p] add_node_result[OF a] show ?thesis by auto
    next
      case False
      with nb Cons.prems have "priority2 g dbg comm_cost xs (total_cost, s) = Inr (total_cost', s')"
        by (auto simp: Let_def split: if_splits)
      from Cons.IH[OF this] show ?thesis by auto
    qed
  qed
qed


lemma add_all_nodes_mono:
  "add_all_nodes g dbg all_nodes s = Some (Inr s') \<Longrightarrow> set (result s) \<subseteq> set (result s')"
  using add_all_nodes_result by blast

lemma priority2_mono:
  "priority2 g dbg comm_cost xs (total_cost, s) = Inr (total_cost', s') \<Longrightarrow>
     set (result s) \<subseteq> set (result s')"
  using priority2_result by blast

lemma overlap_step_result:
  assumes "overlap_step g dbg comm_nodes ca cd idx (rolled, s) = Some (Inr (rolled', s'))"
  shows "set (result s) \<subseteq> set (result s')"
  using assms
  by (auto simp: overlap_step_def Let_def
           split: option.splits sum.splits if_splits prod.splits
           dest!: add_all_nodes_mono priority2_mono; blast)

lemma overlap_loop_result:
  "overlap_loop g dbg comm_nodes ca cd idxs (rolled, s) = Some (Inr (rolled', s')) \<Longrightarrow>
     set (result s) \<subseteq> set (result s')"
proof (induction idxs arbitrary: rolled s)
  case Nil
  then show ?case by simp
next
  case (Cons idx idxs)
  from Cons.prems obtain r1 s1 where
    st: "overlap_step g dbg comm_nodes ca cd idx (rolled, s) = Some (Inr (r1, s1))"
    and lp: "overlap_loop g dbg comm_nodes ca cd idxs (r1, s1) = Some (Inr (rolled', s'))"
    by (auto split: option.splits sum.splits)
  from overlap_step_result[OF st] Cons.IH[OF lp] show ?case by blast
qed

text \<open>
  The first communication node is in the schedule that reaches \<^verbatim>\<open>sink_waits\<close>, and
  \<^verbatim>\<open>sink_waits\<close> returns only on waits: the scheduler returns a sequence only for an
  input without communication nodes, and then the input itself.
\<close>

lemma reorder_returns_only_without_comm:
  assumes "reorder_computation_for_overlap g dbg snodes = Some (Inr r)"
  shows "filter (\<lambda>snode. kind g snode = CollectiveKernel) snodes = [] \<and> r = (snodes, [])"
proof (cases "filter (\<lambda>snode. kind g snode = CollectiveKernel) snodes = []")
  case True
  with assms show ?thesis by (simp add: reorder_computation_for_overlap_def)
next
  case False
  define comm_nodes where "comm_nodes = filter (\<lambda>snode. kind g snode = CollectiveKernel) snodes"
  from False have ne: "comm_nodes \<noteq> []" by (simp add: comm_nodes_def)
  then have "comm_nodes ! 0 \<in> set comm_nodes" by (cases comm_nodes) auto
  then have k: "kind g (comm_nodes ! 0) = CollectiveKernel" by (simp add: comm_nodes_def)
  from assms ne obtain s0 A s1 rolled s2 s3 ca cd idxs out1 where
    a1: "add_all_nodes g dbg (insert (comm_nodes ! 0) A) s0 = Some (Inr s1)"
    and a2: "overlap_loop g dbg comm_nodes ca cd idxs (0, s1) = Some (Inr (rolled, s2))"
    and a3: "add_all_nodes g dbg (unused_nodes s2) s2 = Some (Inr s3)"
    and a4: "sink_waits g (result s3) = Inr out1"
    unfolding reorder_computation_for_overlap_def comm_nodes_def[symmetric] Let_def
    by (auto split: option.splits sum.splits if_splits prod.splits)
  from add_all_nodes_result[OF a1] have "comm_nodes ! 0 \<in> set (result s1)" by auto
  with overlap_loop_result[OF a2] add_all_nodes_result[OF a3]
  have "comm_nodes ! 0 \<in> set (result s3)" by auto
  with sink_waits_Inr[OF a4] have "kind g (comm_nodes ! 0) = Wait" by auto
  with k show ?thesis by simp
qed


text \<open>
  Claim C1, on Scenario A. The specification asks for a permutation of the input. The
  code schedules the three nodes, then passes the schedule to \<^verbatim>\<open>sink_waits\<close>, which
  raises \<^verbatim>\<open>UnboundLocalError\<close>: no sequence is returned.
\<close>

theorem reorder_scenario_A_raises:
  "reorder_computation_for_overlap scenario_A False [''A'', ''B'', ''C'']
     = Some (Inl (UnboundLocalError, [Breakpoint]))"
  by code_simp

text \<open>
  Claim C3, on two communication nodes. \<^verbatim>\<open>decide_global_ordering_comms\<close> records the
  first as a dependency of the second; the scheduler run on the result raises
  \<^verbatim>\<open>UnboundLocalError\<close> in \<^verbatim>\<open>sink_waits\<close>, so no schedule exists in which the
  communication order could be kept.
\<close>

theorem comm_order_pipeline_raises:
  "mutation_deps (decide_global_ordering_comms independent_comms [''C1'', ''C2'']) ''C2'' = [''C1'']
   \<and> reorder_computation_for_overlap
        (decide_global_ordering_comms independent_comms [''C1'', ''C2'']) False [''C1'', ''C2'']
      = Some (Inl (UnboundLocalError, [Breakpoint]))"
  by code_simp

text \<open>Positions in a list that grows at its end.\<close>

lemma index_of_append_in: "x \<in> set xs \<Longrightarrow> index_of (xs @ ys) x = index_of xs x"
  by (induction xs) auto

lemma index_of_less_length: "x \<in> set xs \<Longrightarrow> index_of xs x < length xs"
  by (induction xs) auto

lemma index_of_append_notin: "x \<notin> set xs \<Longrightarrow> index_of (xs @ ys) x = length xs + index_of ys x"
  by (induction xs) auto

text \<open>
  \<^verbatim>\<open>add_node\<close> subtracts from \<open>indeg\<close> the edges that leave the scheduled node and
  frees a user only when its count reaches zero.
\<close>

lemma users_fold_fields:
  "result (fold users_step users s) = result s
   \<and> unused_nodes (fold users_step users s) = unused_nodes s
   \<and> events (fold users_step users s) = events s"
  by (induction users arbitrary: s) (auto simp: Let_def split: option.splits)

lemma users_fold_indeg:
  "indeg (fold users_step users s) u =
     (case indeg s u of None \<Rightarrow> None | Some d \<Rightarrow> Some (d - int (count_list users u)))"
  by (induction users arbitrary: s) (auto simp: Let_def split: option.splits)

lemma users_fold_free:
  "u \<in> free_nodes (fold users_step users s) \<Longrightarrow>
     u \<in> free_nodes s \<or>
     (\<exists>d k. indeg s u = Some d \<and> 1 \<le> k \<and> k \<le> count_list users u \<and> d = int k)"
proof (induction users arbitrary: s)
  case Nil
  then show ?case by simp
next
  case (Cons x xs)
  show ?case
  proof (cases "indeg s x")
    case None
    with Cons.prems have m: "u \<in> free_nodes (fold users_step xs s)" by simp
    from Cons.IH[OF m] show ?thesis
    proof
      assume "u \<in> free_nodes s" then show ?thesis by simp
    next
      assume "\<exists>d k. indeg s u = Some d \<and> 1 \<le> k \<and> k \<le> count_list xs u \<and> d = int k"
      then obtain d k where "indeg s u = Some d" "1 \<le> k" "k \<le> count_list xs u" "d = int k"
        by blast
      then have "indeg s u = Some d \<and> 1 \<le> k \<and> k \<le> count_list (x # xs) u \<and> d = int k"
        by auto
      then show ?thesis by blast
    qed
  next
    case (Some d)
    define s1 where "s1 = (let s' = s\<lparr>indeg := (indeg s)(x \<mapsto> d - 1)\<rparr>
                             in if d - 1 = 0
                                then s'\<lparr>free_nodes := insert x (free_nodes s')\<rparr>
                                else s')"
    from Some Cons.prems have "u \<in> free_nodes (fold users_step xs s1)"
      by (simp add: s1_def)
    from Cons.IH[OF this] consider
      (old) "u \<in> free_nodes s1"
      | (new) d' k where "indeg s1 u = Some d'" "1 \<le> k" "k \<le> count_list xs u" "d' = int k"
      by blast
    then show ?thesis
    proof cases
      case old
      then have "u \<in> free_nodes s \<or> (u = x \<and> d = 1)"
        by (auto simp: s1_def Let_def split: if_splits)
      then show ?thesis
      proof
        assume "u \<in> free_nodes s" then show ?thesis by simp
      next
        assume "u = x \<and> d = 1"
        with Some have "indeg s u = Some d \<and> (1::nat) \<le> 1 \<and> 1 \<le> count_list (x # xs) u \<and> d = int 1"
          by simp
        then show ?thesis by blast
      qed
    next
      case new
      show ?thesis
      proof (cases "u = x")
        case True
        with new Some have "d - 1 = int k" by (auto simp: s1_def Let_def split: if_splits)
        then have "d = int (Suc k)" by simp
        with True Some new have
          "indeg s u = Some d \<and> 1 \<le> Suc k \<and> Suc k \<le> count_list (x # xs) u \<and> d = int (Suc k)"
          by simp
        then show ?thesis by blast
      next
        case False
        with new have "indeg s u = Some d'" by (auto simp: s1_def Let_def split: if_splits)
        with False new have
          "indeg s u = Some d' \<and> 1 \<le> k \<and> k \<le> count_list (x # xs) u \<and> d' = int k"
          by simp
        then show ?thesis by blast
      qed
    qed
  qed
qed


lemma add_node_unfold:
  assumes "add_node g dbg n s = Inr s'"
  shows "n \<in> unused_nodes s" and "n \<in> free_nodes s"
    and "s' = fold users_step (node_users g n)
                (s\<lparr>events := debug_print dbg (events s),
                   free_nodes := free_nodes s - {n},
                   unused_nodes := unused_nodes s - {n},
                   result := result s @ [n]\<rparr>)"
  using assms by (auto simp: add_node_def split: if_splits)

lemma add_node_inv:
  assumes inv: "sched_inv g snodes s" and a: "add_node g dbg n s = Inr s'"
  shows "sched_inv g snodes s'"
proof -
  let ?U = "unused_nodes s"
  let ?c = "\<lambda>a u. int (count_list (node_users g a) u)"
  note un = add_node_unfold[OF a]
  from inv have d: "distinct (result s)" and dj: "set (result s) \<inter> ?U = {}"
    and un_all: "set (result s) \<union> ?U = set snodes"
    and ind: "\<And>u. indeg s u = (if u \<in> set snodes then Some (\<Sum>a \<in> ?U. ?c a u) else None)"
    and fr: "\<And>u. u \<in> free_nodes s \<Longrightarrow> indeg s u = Some 0"
    and ord: "\<And>a b. a \<in> set snodes \<Longrightarrow> b \<in> set (result s) \<Longrightarrow> b \<in> set (node_users g a) \<Longrightarrow>
                a \<in> set (result s) \<and> index_of (result s) a < index_of (result s) b"
    unfolding sched_inv_def by blast+
  from un_all have finU: "finite ?U" by (metis finite_Un finite_set)
  from un(1) dj have n_new: "n \<notin> set (result s)" by blast
  from un(1) un_all have n_in: "n \<in> set snodes" by blast
  have res: "result s' = result s @ [n]" and unu: "unused_nodes s' = ?U - {n}"
    unfolding un(3) by (simp_all add: users_fold_fields)
  have ind': "indeg s' u = (case indeg s u of None \<Rightarrow> None | Some d \<Rightarrow> Some (d - ?c n u))" for u
    unfolding un(3) by (simp add: users_fold_indeg)
  have split_sum: "(\<Sum>a \<in> ?U. ?c a u) = ?c n u + (\<Sum>a \<in> ?U - {n}. ?c a u)" for u
    using finU un(1) by (rule sum.remove)
  have nonneg: "0 \<le> (\<Sum>a \<in> ?U - {n}. ?c a u)" for u
    by (rule sum_nonneg) simp
  have zero: "?c a u = 0" if "indeg s u = Some 0" "a \<in> ?U" for a u
  proof -
    from that(1) ind[of u] have "(\<Sum>a \<in> ?U. ?c a u) = 0" by (auto split: if_splits)
    then have "\<forall>a \<in> ?U. ?c a u = 0" using finU by (subst (asm) sum_nonneg_eq_0_iff) auto
    with that(2) show ?thesis by blast
  qed
  have c1: "distinct (result s')" using d n_new res by simp
  have c2: "set (result s') \<inter> unused_nodes s' = {}" using dj res unu by auto
  have c3: "set (result s') \<union> unused_nodes s' = set snodes" using un_all un(1) res unu by auto
  have c4: "indeg s' u =
            (if u \<in> set snodes then Some (\<Sum>a \<in> unused_nodes s'. ?c a u) else None)" for u
    using ind[of u] split_sum[of u] by (simp add: ind' unu)
  have c5: "indeg s' u = Some 0" if u: "u \<in> free_nodes s'" for u
  proof -
    from u have "u \<in> free_nodes s - {n} \<or>
      (\<exists>d k. indeg s u = Some d \<and> 1 \<le> k \<and> k \<le> count_list (node_users g n) u \<and> d = int k)"
      unfolding un(3) using users_fold_free[of u "node_users g n"] by fastforce
    then show ?thesis
    proof
      assume "u \<in> free_nodes s - {n}"
      then have i0: "indeg s u = Some 0" using fr by blast
      from zero[OF i0 un(1)] i0 show ?thesis by (simp add: ind')
    next
      assume "\<exists>d k. indeg s u = Some d \<and> 1 \<le> k \<and> k \<le> count_list (node_users g n) u \<and> d = int k"
      then obtain d k where dk: "indeg s u = Some d" "k \<le> count_list (node_users g n) u" "d = int k"
        by blast
      from dk(1) ind[of u] have "d = (\<Sum>a \<in> ?U. ?c a u)" by (auto split: if_splits)
      with split_sum[of u] nonneg[of u] have "?c n u \<le> d" by simp
      with dk(2,3) have "d = ?c n u" by simp
      with dk(1) show ?thesis by (simp add: ind')
    qed
  qed
  have c6: "a \<in> set (result s') \<and> index_of (result s') a < index_of (result s') b"
    if ab: "a \<in> set snodes" "b \<in> set (result s')" "b \<in> set (node_users g a)" for a b
  proof (cases "b \<in> set (result s)")
    case True
    from ord[OF ab(1) True ab(3)] True show ?thesis
      by (simp add: res index_of_append_in)
  next
    case False
    with ab(2) res have bn: "b = n" by simp
    from fr[OF un(2)] have i0: "indeg s n = Some 0" .
    have "a \<notin> ?U"
    proof
      assume "a \<in> ?U"
      from zero[OF i0 this] have "count_list (node_users g a) n = 0" by simp
      with ab(3) bn show False by (simp add: count_list_0_iff)
    qed
    with ab(1) un_all have a_in: "a \<in> set (result s)" by blast
    from index_of_less_length[OF a_in] n_new a_in show ?thesis
      by (simp add: res bn index_of_append_in index_of_append_notin)
  qed
  show ?thesis
    unfolding sched_inv_def using c1 c2 c3 c4 c5 c6 by blast
qed


lemma sched_inv_events [simp]:
  "sched_inv g snodes (s\<lparr>events := e\<rparr>) = sched_inv g snodes s"
  by (simp add: sched_inv_def)

lemma add_pass_inv:
  "add_pass g dbg nodes (all_nodes, progress, s) = Inr (all_nodes', progress', s') \<Longrightarrow>
   sched_inv g snodes s \<Longrightarrow>
     sched_inv g snodes s' \<and> (\<exists>ys. result s' = result s @ ys)"
proof (induction nodes arbitrary: all_nodes progress s)
  case Nil
  then show ?case by simp
next
  case (Cons node nodes)
  show ?case
  proof (cases "node \<in> free_nodes s")
    case True
    with Cons.prems(1) obtain s1 where a: "add_node g dbg node s = Inr s1"
      and p: "add_pass g dbg nodes (all_nodes - {node}, True, s1) = Inr (all_nodes', progress', s')"
      by (auto split: sum.splits)
    from Cons.IH[OF p add_node_inv[OF Cons.prems(2) a]] add_node_result[OF a]
    show ?thesis by auto
  next
    case False
    with Cons.prems(1) have "add_pass g dbg nodes (all_nodes, progress, s) = Inr (all_nodes', progress', s')"
      by simp
    from Cons.IH[OF this Cons.prems(2)] show ?thesis .
  qed
qed

lemma add_loop_inv_aux:
  assumes "add_loop g dbg all_nodes s = Some r"
  shows "\<forall>s'. r = Inr s' \<longrightarrow> sched_inv g snodes s \<longrightarrow>
           sched_inv g snodes s' \<and> (\<exists>ys. result s' = result s @ ys)"
proof (rule add_loop.raw_induct
         [where P = "\<lambda>g dbg all_nodes s r.
                       \<forall>s'. r = Inr s' \<longrightarrow> sched_inv g snodes s \<longrightarrow>
                         sched_inv g snodes s' \<and> (\<exists>ys. result s' = result s @ ys)",
          OF _ assms], goal_cases)
  case (1 f g dbg all_nodes s r)
  note IH = "1"(1) and eq = "1"(2)
  show ?case
  proof (intro allI impI)
    fix s' assume r: "r = Inr s'" and inv: "sched_inv g snodes s"
    show "sched_inv g snodes s' \<and> (\<exists>ys. result s' = result s @ ys)"
    proof (cases "all_nodes = {}")
      case True
      with eq r inv show ?thesis by simp
    next
      case False
      with eq r obtain all1 progress s1 where
        p: "add_pass g dbg (tuple_sorted all_nodes) (all_nodes, False, s) = Inr (all1, progress, s1)"
        by (auto split: sum.splits)
      from add_pass_inv[OF p inv] obtain ys where
        i1: "sched_inv g snodes s1" and r1: "result s1 = result s @ ys" by blast
      show ?thesis
      proof (cases progress)
        case True
        with False p eq r have "f g dbg all1 s1 = Some (Inr s')" by simp
        from IH[OF this, rule_format, OF refl i1] r1 show ?thesis by auto
      next
        case f: False
        let ?s2 = "s1\<lparr>events := events s1 @ [Breakpoint, Print]\<rparr>"
        from f False p eq r have "f g dbg all1 ?s2 = Some (Inr s')" by simp
        from IH[OF this, rule_format, OF refl] i1 r1 show ?thesis by auto
      qed
    qed
  qed
qed

lemma add_all_nodes_inv:
  assumes "add_all_nodes g dbg all_nodes s = Some (Inr s')" and "sched_inv g snodes s"
  shows "sched_inv g snodes s'" and "\<exists>ys. result s' = result s @ ys"
    and "all_nodes \<subseteq> unused_nodes s" and "all_nodes \<subseteq> set (result s')"
proof -
  from assms(1) have l: "add_loop g dbg all_nodes s = Some (Inr s')"
    and sub: "all_nodes \<subseteq> unused_nodes s"
    by (auto simp: add_all_nodes_def split: if_splits)
  from add_loop_inv_aux[OF l, rule_format, OF refl assms(2)]
  show "sched_inv g snodes s'" and "\<exists>ys. result s' = result s @ ys" by blast+
  from sub show "all_nodes \<subseteq> unused_nodes s" .
  from add_all_nodes_result[OF assms(1)] show "all_nodes \<subseteq> set (result s')" by blast
qed

lemma priority2_inv:
  "priority2 g dbg comm_cost xs (total_cost, s) = Inr (total_cost', s') \<Longrightarrow>
   sched_inv g snodes s \<Longrightarrow>
     sched_inv g snodes s' \<and> (\<exists>ys. result s' = result s @ ys)"
proof (induction xs arbitrary: total_cost s)
  case Nil
  then show ?case by simp
next
  case (Cons x xs)
  show ?case
  proof (cases "comm_cost \<le> total_cost")
    case True
    with Cons.prems show ?thesis by auto
  next
    case nb: False
    show ?thesis
    proof (cases "kind g x \<noteq> CollectiveKernel \<and> \<not> (comm_cost - total_cost \<le> runtime g x / 2)")
      case True
      with nb Cons.prems(1) obtain s1 where a: "add_node g dbg x s = Inr s1"
        and p: "priority2 g dbg comm_cost xs (total_cost + runtime g x, s1) = Inr (total_cost', s')"
        by (auto simp: Let_def split: sum.splits)
      from Cons.IH[OF p add_node_inv[OF Cons.prems(2) a]] add_node_result[OF a]
      show ?thesis by auto
    next
      case False
      with nb Cons.prems(1) have "priority2 g dbg comm_cost xs (total_cost, s) = Inr (total_cost', s')"
        by (auto simp: Let_def split: if_splits)
      from Cons.IH[OF this Cons.prems(2)] show ?thesis .
    qed
  qed
qed


lemma overlap_step_inv:
  assumes st: "overlap_step g dbg cn ca cd idx (rolled, s) = Some (Inr (rolled', s'))"
    and inv: "sched_inv g snodes s"
  shows "sched_inv g snodes s'" and "\<exists>ys. result s' = result s @ ys"
    and "cn ! idx \<notin> set (result s)" and "cn ! idx \<in> set (result s')"
proof -
  define s0 where "s0 = s\<lparr>events := debug_print dbg (debug_print dbg (events s))\<rparr>"
  define p1 where "p1 = unused_nodes s0 \<inter> (ca (cn ! idx) - cd (cn ! (idx - 1)))"
  define total where "total = rolled + sum (runtime g) p1"
  define cost where "cost = runtime g (cn ! (idx - 1))"
  define rest where "rest = (\<lambda>s1.
     (let s = s1\<lparr>events := debug_print dbg (events s1)\<rparr>;
                 group1_cost = total
             in (case (if total \<ge> cost then Inr (total, s)
                      else priority2 g dbg cost
                             (overlappable_nodes cn ca cd idx s)
                             (total, s)) of
                  Inl e \<Rightarrow> Some (Inl e)
                | Inr (total_cost, s) \<Rightarrow>
                   (let rollable_compute = total_cost - group1_cost;
                        rolled_over_compute =
                          (if (cd (cn ! (idx - 1)) \<inter> ca (cn ! idx) \<noteq> {}) then 0 else rollable_compute);
                        s = s\<lparr>events := debug_print dbg (debug_print dbg (events s))\<rparr>;
                        priority3 = unused_nodes s \<inter> ca (cn ! idx)
                    in (case add_all_nodes g dbg (insert (cn ! idx) priority3) s of
                         None \<Rightarrow> None
                       | Some (Inl e) \<Rightarrow> Some (Inl e)
                       | Some (Inr s) \<Rightarrow>
                           Some (Inr (rolled_over_compute,
                                      s\<lparr>events := debug_print dbg (events s)\<rparr>)))))))"
  have unf: "overlap_step g dbg cn ca cd idx (rolled, s) =
     (case add_all_nodes g dbg p1 s0 of
           None \<Rightarrow> None
         | Some (Inl e) \<Rightarrow> Some (Inl e)
         | Some (Inr s1) \<Rightarrow> rest s1)"
    unfolding overlap_step_def rest_def s0_def p1_def total_def cost_def Let_def by simp
  from st unf obtain s1 where a1: "add_all_nodes g dbg p1 s0 = Some (Inr s1)"
    and r: "rest s1 = Some (Inr (rolled', s'))"
    by (auto split: option.splits sum.splits)
  define s2 where "s2 = s1\<lparr>events := debug_print dbg (events s1)\<rparr>"
  from r obtain t3 s3 where
    a2: "(if total \<ge> cost then Inr (total, s2)
          else priority2 g dbg cost (overlappable_nodes cn ca cd idx s2) (total, s2)) = Inr (t3, s3)"
    unfolding rest_def s2_def Let_def by (auto split: sum.splits)
  define s4 where "s4 = s3\<lparr>events := debug_print dbg (debug_print dbg (events s3))\<rparr>"
  from r a2 obtain s5 where
    a3: "add_all_nodes g dbg (insert (cn ! idx) (unused_nodes s4 \<inter> ca (cn ! idx))) s4 = Some (Inr s5)"
    and a4: "s' = s5\<lparr>events := debug_print dbg (events s5)\<rparr>"
    unfolding rest_def s2_def s4_def Let_def by (auto split: option.splits sum.splits)
  from inv have i0: "sched_inv g snodes s0" by (simp add: s0_def)
  from add_all_nodes_inv(1,2)[OF a1 i0] obtain ys1 where
    i1: "sched_inv g snodes s1" and r1: "result s1 = result s @ ys1" by (auto simp: s0_def)
  from i1 have i2: "sched_inv g snodes s2" by (simp add: s2_def)
  have "sched_inv g snodes s3 \<and> (\<exists>ys. result s3 = result s1 @ ys)"
  proof (cases "total \<ge> cost")
    case True
    with a2 have "s3 = s2" by simp
    with i2 show ?thesis by (simp add: s2_def)
  next
    case False
    with a2 have "priority2 g dbg cost (overlappable_nodes cn ca cd idx s2) (total, s2) = Inr (t3, s3)"
      by simp
    from priority2_inv[OF this i2] show ?thesis by (simp add: s2_def)
  qed
  then obtain ys3 where i3: "sched_inv g snodes s3" and r3: "result s3 = result s1 @ ys3" by blast
  from i3 have i4: "sched_inv g snodes s4" by (simp add: s4_def)
  from add_all_nodes_inv[OF a3 i4] obtain ys5 where
    i5: "sched_inv g snodes s5" and r5: "result s5 = result s4 @ ys5"
    and u: "cn ! idx \<in> unused_nodes s4" and m: "cn ! idx \<in> set (result s5)" by auto
  from i5 a4 show "sched_inv g snodes s'" by simp
  from r1 r3 r5 a4 show "\<exists>ys. result s' = result s @ ys" by (simp add: s4_def)
  from i4 u have "cn ! idx \<notin> set (result s4)" unfolding sched_inv_def by blast
  with r1 r3 show "cn ! idx \<notin> set (result s)" by (simp add: s4_def)
  from m a4 show "cn ! idx \<in> set (result s')" by simp
qed


text \<open>
  \<^verbatim>\<open>reorder_computation_for_overlap\<close> is the guard, then the schedule of lines
  135--254, then the two passes.
\<close>

lemma reorder_by_overlap_schedule:
  "reorder_computation_for_overlap g dbg snodes =
     (let comm_nodes = filter (\<lambda>snode. kind g snode = CollectiveKernel) snodes
      in if length comm_nodes = 0 then Some (Inr (snodes, []))
         else (case overlap_schedule g dbg snodes comm_nodes of
                 None \<Rightarrow> None
               | Some (Inl e) \<Rightarrow> Some (Inl e)
               | Some (Inr s) \<Rightarrow>
              (case sink_waits g (result s) of
                 Inl e \<Rightarrow> Some (Inl (e, events s))
               | Inr result1 \<Rightarrow>
              (case raise_comms g result1 of
                 Inl e \<Rightarrow> Some (Inl (e, events s))
               | Inr result2 \<Rightarrow> Some (Inr (result2, events s @ [Printd]))))))"
  unfolding reorder_computation_for_overlap_def overlap_schedule_def Let_def
  by (simp split: option.splits sum.splits prod.splits)

lemma overlap_loop_inv:
  "overlap_loop g dbg cn ca cd [k..<m] (rolled, s) = Some (Inr (rolled', s')) \<Longrightarrow>
   sched_inv g snodes s \<Longrightarrow> 1 \<le> k \<Longrightarrow> cn ! (k - 1) \<in> set (result s) \<Longrightarrow>
     sched_inv g snodes s' \<and> (\<exists>ys. result s' = result s @ ys)
     \<and> (\<forall>i. k \<le> i \<and> i < m \<longrightarrow>
            index_of (result s') (cn ! (i - 1)) < index_of (result s') (cn ! i))"
proof (induction "m - k" arbitrary: k rolled s)
  case 0
  then show ?case by simp
next
  case (Suc n)
  from Suc.hyps(2) have km: "k < m" by simp
  then have upt: "[k..<m] = k # [Suc k..<m]" by (rule upt_conv_Cons)
  from Suc.prems(1) upt obtain r1 s1 where
    st: "overlap_step g dbg cn ca cd k (rolled, s) = Some (Inr (r1, s1))"
    and lp: "overlap_loop g dbg cn ca cd [Suc k..<m] (r1, s1) = Some (Inr (rolled', s'))"
    by (auto split: option.splits sum.splits)
  from overlap_step_inv[OF st Suc.prems(2)] obtain ys1 where
    i1: "sched_inv g snodes s1" and r1: "result s1 = result s @ ys1"
    and fresh: "cn ! k \<notin> set (result s)" and sch: "cn ! k \<in> set (result s1)" by blast
  from Suc.hyps(2) have n: "n = m - Suc k" by simp
  from sch have sch': "cn ! (Suc k - 1) \<in> set (result s1)" by simp
  from Suc.hyps(1)[OF n lp i1 _ sch'] obtain ys2 where
    i': "sched_inv g snodes s'" and r': "result s' = result s1 @ ys2"
    and o': "\<And>i. Suc k \<le> i \<Longrightarrow> i < m \<Longrightarrow>
               index_of (result s') (cn ! (i - 1)) < index_of (result s') (cn ! i)"
    by auto
  have rs: "result s' = result s @ (ys1 @ ys2)" using r1 r' by simp
  have ok: "index_of (result s') (cn ! (k - 1)) < index_of (result s') (cn ! k)"
  proof -
    from Suc.prems(4) have "index_of (result s') (cn ! (k - 1)) < length (result s)"
      by (simp add: rs index_of_append_in index_of_less_length)
    moreover from fresh have "length (result s) \<le> index_of (result s') (cn ! k)"
      by (simp add: rs index_of_append_notin)
    ultimately show ?thesis by simp
  qed
  have "index_of (result s') (cn ! (i - 1)) < index_of (result s') (cn ! i)"
    if "k \<le> i" "i < m" for i
  proof (cases "i = k")
    case True
    with ok show ?thesis by simp
  next
    case False
    with that have "Suc k \<le> i" by simp
    from o'[OF this that(2)] show ?thesis .
  qed
  with i' rs show ?case by blast
qed

lemma indeg_users_fold:
  "fold (\<lambda>user indeg.
            case indeg user of
              None \<Rightarrow> indeg
            | Some d \<Rightarrow> indeg(user \<mapsto> d + 1)) users d0 u =
     (case d0 u of None \<Rightarrow> None | Some d \<Rightarrow> Some (d + int (count_list users u)))"
  by (induction users arbitrary: d0) (auto split: option.splits)

lemma indeg_snodes_fold:
  "fold (\<lambda>snode. fold (\<lambda>user indeg.
                            case indeg user of
                              None \<Rightarrow> indeg
                            | Some d \<Rightarrow> indeg(user \<mapsto> d + 1)) (node_users g snode)) xs d0 u =
     (case d0 u of
        None \<Rightarrow> None
      | Some d \<Rightarrow> Some (d + (\<Sum>a\<leftarrow>xs. int (count_list (node_users g a) u))))"
  by (induction xs arbitrary: d0) (auto simp: indeg_users_fold split: option.splits)

lemma init_indeg_eq:
  assumes "distinct snodes"
  shows "init_indeg g snodes u =
           (if u \<in> set snodes
            then Some (\<Sum>a \<in> set snodes. int (count_list (node_users g a) u))
            else None)"
  using assms
  by (simp add: init_indeg_def indeg_snodes_fold sum_list_distinct_conv_sum_set)

lemma init_sched_inv:
  assumes "distinct snodes"
  shows "sched_inv g snodes
           \<lparr>indeg = init_indeg g snodes,
            free_nodes = set (filter (\<lambda>node. init_indeg g snodes node = Some 0) snodes),
            unused_nodes = set snodes, result = [], events = evs\<rparr>"
  unfolding sched_inv_def using init_indeg_eq[OF assms, of g] by simp


lemma index_of_le_append: "index_of xs x \<le> index_of (xs @ ys) x"
  by (induction xs) auto

lemma index_of_le_length: "index_of xs x \<le> length xs"
  by (induction xs) auto

lemma index_of_less_member: "index_of xs a < index_of xs b \<Longrightarrow> a \<in> set xs"
proof (rule ccontr)
  assume lt: "index_of xs a < index_of xs b" and "a \<notin> set xs"
  then have "index_of xs a = length xs" using index_of_append_notin[of a xs "[]"] by simp
  with lt index_of_le_length[of xs b] show False by simp
qed

lemma add_mutation_dep_source:
  "a \<in> set (mutation_deps (fold (\<lambda>i g. add_mutation_dep g (cn ! i) (cn ! (i - 1))) is g) b) \<Longrightarrow>
     a \<in> set (mutation_deps g b) \<or> (\<exists>i \<in> set is. a = cn ! (i - 1) \<and> b = cn ! i)"
proof (induction "is" arbitrary: g)
  case Nil
  then show ?case by simp
next
  case (Cons j js)
  from Cons.prems have
    "a \<in> set (mutation_deps (fold (\<lambda>i g. add_mutation_dep g (cn ! i) (cn ! (i - 1))) js
                                (add_mutation_dep g (cn ! j) (cn ! (j - 1)))) b)"
    by simp
  from Cons.IH[OF this] show ?case
  proof
    assume "a \<in> set (mutation_deps (add_mutation_dep g (cn ! j) (cn ! (j - 1))) b)"
    then have "a \<in> set (mutation_deps g b) \<or> (a = cn ! (j - 1) \<and> b = cn ! j)"
      by (auto simp: add_mutation_dep_def split: if_splits)
    then show ?thesis by auto
  next
    assume "\<exists>i \<in> set js. a = cn ! (i - 1) \<and> b = cn ! i"
    then show ?thesis by auto
  qed
qed

lemma decide_global_ordering_comms_source:
  assumes "mutation_deps g0 = (\<lambda>n. [])"
    and "comm_nodes = filter (\<lambda>n. kind g0 n = CollectiveKernel) nodes"
    and "a \<in> set (mutation_deps (decide_global_ordering_comms g0 nodes) b)"
  shows "\<exists>i. 1 \<le> i \<and> i < length comm_nodes \<and> a = comm_nodes ! (i - 1) \<and> b = comm_nodes ! i"
proof -
  from assms(3) have
    "a \<in> set (mutation_deps (fold (\<lambda>i g. add_mutation_dep g (comm_nodes ! i) (comm_nodes ! (i - 1)))
                                [1..<length comm_nodes] g0) b)"
    by (simp add: decide_global_ordering_comms_def Let_def assms(2))
  from add_mutation_dep_source[OF this] assms(1) show ?thesis by auto
qed

lemma overlap_schedule_sound:
  assumes dist: "distinct snodes"
    and cn: "comm_nodes = filter (\<lambda>snode. kind g snode = CollectiveKernel) snodes"
    and ne: "comm_nodes \<noteq> []"
    and sch: "overlap_schedule g dbg snodes comm_nodes = Some (Inr s)"
  shows "sched_inv g snodes s" and "set (result s) = set snodes"
    and "\<And>i. 1 \<le> i \<Longrightarrow> i < length comm_nodes \<Longrightarrow>
           index_of (result s) (comm_nodes ! (i - 1)) < index_of (result s) (comm_nodes ! i)"
proof -
  let ?s0 = "\<lparr>indeg = init_indeg g snodes,
             free_nodes = set (filter (\<lambda>node. init_indeg g snodes node = Some 0) snodes),
             unused_nodes = set snodes, result = [], events = [Breakpoint]\<rparr>"
  from dist cn have rd: "remdups comm_nodes = comm_nodes" by (simp add: distinct_remdups_id)
  from sch obtain A ca cd s1 r2 s2 where
    a1: "add_all_nodes g dbg (insert (comm_nodes ! 0) A) ?s0 = Some (Inr s1)"
    and a2: "overlap_loop g dbg comm_nodes ca cd [1..<length comm_nodes] (0, s1) = Some (Inr (r2, s2))"
    and a3: "add_all_nodes g dbg (unused_nodes s2) s2 = Some (Inr s)"
    unfolding overlap_schedule_def Let_def rd
    by (auto split: option.splits sum.splits prod.splits)
  from add_all_nodes_inv[OF a1 init_sched_inv[OF dist]] have
    i1: "sched_inv g snodes s1" and c0: "comm_nodes ! (1 - 1) \<in> set (result s1)" by auto
  from overlap_loop_inv[OF a2 i1 _ c0] have
    i2: "sched_inv g snodes s2"
    and o2: "\<And>i. 1 \<le> i \<Longrightarrow> i < length comm_nodes \<Longrightarrow>
               index_of (result s2) (comm_nodes ! (i - 1)) < index_of (result s2) (comm_nodes ! i)"
    by auto
  from add_all_nodes_inv[OF a3 i2] obtain ys where
    i3: "sched_inv g snodes s" and r3: "result s = result s2 @ ys"
    and all: "unused_nodes s2 \<subseteq> set (result s)" by auto
  show "sched_inv g snodes s" by (rule i3)
  from i2 have "set (result s2) \<union> unused_nodes s2 = set snodes" unfolding sched_inv_def by blast
  moreover from i3 have "set (result s) \<subseteq> set snodes" unfolding sched_inv_def by blast
  ultimately show "set (result s) = set snodes" using all r3 by auto
  fix i assume i: "1 \<le> i" "i < length comm_nodes"
  from o2[OF i] have lt: "index_of (result s2) (comm_nodes ! (i - 1)) < index_of (result s2) (comm_nodes ! i)" .
  from index_of_less_member[OF lt] have
    "index_of (result s) (comm_nodes ! (i - 1)) = index_of (result s2) (comm_nodes ! (i - 1))"
    by (simp add: r3 index_of_append_in)
  with lt index_of_le_append[of "result s2" "comm_nodes ! i" ys]
  show "index_of (result s) (comm_nodes ! (i - 1)) < index_of (result s) (comm_nodes ! i)"
    by (simp add: r3)
qed

text \<open>
  Claim C2, as the code has it, for an input without duplicates and the graph that
  \<^verbatim>\<open>decide_global_ordering_comms\<close> makes of one without synthetic dependencies. An
  input without communication nodes is returned as it is. For an input with a
  communication node, the call is the two final passes applied to the schedule that
  lines 135--254 build; that schedule holds every input node once, and every edge
  \<open>a \<rightarrow> b\<close> between input nodes, true or synthetic, has \<open>a\<close> at a smaller index than
  \<open>b\<close> in it.
\<close>

theorem scheduling_respects_dependencies:
  assumes "distinct snodes"
    and "mutation_deps g0 = (\<lambda>n. [])"
    and "g = decide_global_ordering_comms g0 snodes"
    and "comm_nodes = filter (\<lambda>snode. kind g snode = CollectiveKernel) snodes"
  shows "(comm_nodes = [] \<longrightarrow>
            reorder_computation_for_overlap g dbg snodes = Some (Inr (snodes, [])))
         \<and> (comm_nodes \<noteq> [] \<longrightarrow>
             reorder_computation_for_overlap g dbg snodes =
               (case overlap_schedule g dbg snodes comm_nodes of
                  None \<Rightarrow> None
                | Some (Inl e) \<Rightarrow> Some (Inl e)
                | Some (Inr s) \<Rightarrow>
                    (case sink_waits g (result s) of
                       Inl e \<Rightarrow> Some (Inl (e, events s))
                     | Inr result1 \<Rightarrow>
                         (case raise_comms g result1 of
                            Inl e \<Rightarrow> Some (Inl (e, events s))
                          | Inr result2 \<Rightarrow> Some (Inr (result2, events s @ [Printd]))))))
         \<and> (comm_nodes \<noteq> [] \<longrightarrow>
             (\<forall>s. overlap_schedule g dbg snodes comm_nodes = Some (Inr s) \<longrightarrow>
                mset (result s) = mset snodes
                \<and> (\<forall>a \<in> set snodes. \<forall>b \<in> set snodes.
                      edge g a b \<longrightarrow> index_of (result s) a < index_of (result s) b)))"
proof (intro conjI impI allI)
  assume "comm_nodes = []"
  with assms(4) show "reorder_computation_for_overlap g dbg snodes = Some (Inr (snodes, []))"
    by (simp add: reorder_computation_for_overlap_def)
next
  assume "comm_nodes \<noteq> []"
  with assms(4) show "reorder_computation_for_overlap g dbg snodes =
               (case overlap_schedule g dbg snodes comm_nodes of
                  None \<Rightarrow> None
                | Some (Inl e) \<Rightarrow> Some (Inl e)
                | Some (Inr s) \<Rightarrow>
                    (case sink_waits g (result s) of
                       Inl e \<Rightarrow> Some (Inl (e, events s))
                     | Inr result1 \<Rightarrow>
                         (case raise_comms g result1 of
                            Inl e \<Rightarrow> Some (Inl (e, events s))
                          | Inr result2 \<Rightarrow> Some (Inr (result2, events s @ [Printd])))))"
    by (simp add: reorder_by_overlap_schedule)
next
  fix s
  assume ne: "comm_nodes \<noteq> []" and sch: "overlap_schedule g dbg snodes comm_nodes = Some (Inr s)"
  note snd = overlap_schedule_sound[OF assms(1) assms(4) ne sch]
  from snd(1) have d: "distinct (result s)" unfolding sched_inv_def by blast
  from d assms(1) snd(2) show "mset (result s) = mset snodes"
    by (simp add: set_eq_iff_mset_eq_distinct)
  show "\<forall>a \<in> set snodes. \<forall>b \<in> set snodes.
          edge g a b \<longrightarrow> index_of (result s) a < index_of (result s) b"
  proof (intro ballI impI)
    fix a b assume a: "a \<in> set snodes" and b: "b \<in> set snodes" and e: "edge g a b"
    from e consider (true) "b \<in> set (node_users g a)" | (synthetic) "a \<in> set (mutation_deps g b)"
      unfolding edge_def by blast
    then show "index_of (result s) a < index_of (result s) b"
    proof cases
      case true
      from snd(1) a b true snd(2) show ?thesis unfolding sched_inv_def by blast
    next
      case synthetic
      have k: "kind g = kind g0" unfolding assms(3) by (rule decide_global_ordering_comms_fields)
      from assms(4) k have cn0: "comm_nodes = filter (\<lambda>n. kind g0 n = CollectiveKernel) snodes"
        by simp
      from decide_global_ordering_comms_source[OF assms(2) cn0 synthetic[unfolded assms(3)]]
      obtain i where "1 \<le> i" "i < length comm_nodes" "a = comm_nodes ! (i - 1)" "b = comm_nodes ! i"
        by blast
      with snd(3)[of i] show ?thesis by simp
    qed
  qed
qed

theorem scheduling_respects_dependencies_witness:
  "map_option (map_sum id result)
     (overlap_schedule
        (decide_global_ordering_comms overlap_example [''D'', ''P'', ''X'', ''Q'', ''A''])
        False [''D'', ''P'', ''X'', ''Q'', ''A''] [''P'', ''Q''])
     = Some (Inr [''A'', ''P'', ''X'', ''Q'', ''D''])
   \<and> edge (decide_global_ordering_comms overlap_example [''D'', ''P'', ''X'', ''Q'', ''A'']) ''A'' ''P''
   \<and> edge (decide_global_ordering_comms overlap_example [''D'', ''P'', ''X'', ''Q'', ''A'']) ''P'' ''Q''
   \<and> edge (decide_global_ordering_comms overlap_example [''D'', ''P'', ''X'', ''Q'', ''A'']) ''Q'' ''D''
   \<and> index_of [''A'', ''P'', ''X'', ''Q'', ''D''] ''A'' < index_of [''A'', ''P'', ''X'', ''Q'', ''D''] ''P''
   \<and> index_of [''A'', ''P'', ''X'', ''Q'', ''D''] ''P'' < index_of [''A'', ''P'', ''X'', ''Q'', ''D''] ''Q''
   \<and> index_of [''A'', ''P'', ''X'', ''Q'', ''D''] ''Q'' < index_of [''A'', ''P'', ''X'', ''Q'', ''D''] ''D''
   \<and> reorder_computation_for_overlap
        (decide_global_ordering_comms compute_pair [''Q'', ''P'']) False [''Q'', ''P'']
       = Some (Inr ([''Q'', ''P''], []))"
proof -
  let ?sn = "[''D'', ''P'', ''X'', ''Q'', ''A'']"
  let ?g = "decide_global_ordering_comms overlap_example ?sn"
  have dist: "distinct ?sn" by simp
  have nodeps: "mutation_deps overlap_example = (\<lambda>n. [])" by (simp add: overlap_example_def)
  have cn: "[''P'', ''Q''] = filter (\<lambda>snode. kind ?g snode = CollectiveKernel) ?sn"
    by code_simp
  have run: "map_option (map_sum id result) (overlap_schedule ?g False ?sn [''P'', ''Q''])
               = Some (Inr [''A'', ''P'', ''X'', ''Q'', ''D''])"
    by code_simp
  then obtain s where sch: "overlap_schedule ?g False ?sn [''P'', ''Q''] = Some (Inr s)"
    and rs: "result s = [''A'', ''P'', ''X'', ''Q'', ''D'']"
    by (cases "overlap_schedule ?g False ?sn [''P'', ''Q'']";
        cases "the (overlap_schedule ?g False ?sn [''P'', ''Q''])") auto
  have e1: "edge ?g ''A'' ''P''" and e2: "edge ?g ''P'' ''Q''" and e3: "edge ?g ''Q'' ''D''"
    by code_simp+
  from scheduling_respects_dependencies[OF dist nodeps refl cn, of False] sch
  have ord: "\<forall>a \<in> set ?sn. \<forall>b \<in> set ?sn.
               edge ?g a b \<longrightarrow> index_of (result s) a < index_of (result s) b"
    by blast
  from ord e1 have o1: "index_of (result s) ''A'' < index_of (result s) ''P''" by simp
  from ord e2 have o2: "index_of (result s) ''P'' < index_of (result s) ''Q''" by simp
  from ord e3 have o3: "index_of (result s) ''Q'' < index_of (result s) ''D''" by simp
  have dist2: "distinct [''Q'', ''P'']" by simp
  have nodeps2: "mutation_deps compute_pair = (\<lambda>n. [])" by (simp add: compute_pair_def)
  have cn2: "[] = filter (\<lambda>snode. kind (decide_global_ordering_comms compute_pair [''Q'', ''P'']) snode
                                = CollectiveKernel) [''Q'', ''P'']"
    by code_simp
  from scheduling_respects_dependencies[OF dist2 nodeps2 refl cn2, of False]
  have r2: "reorder_computation_for_overlap
        (decide_global_ordering_comms compute_pair [''Q'', ''P'']) False [''Q'', ''P'']
       = Some (Inr ([''Q'', ''P''], []))" by simp
  from run e1 e2 e3 o1 o2 o3 r2 show ?thesis unfolding rs by blast
qed

text \<open>
  Claim C2 as stated fails on an input without communication nodes that lists the user
  \<open>Q\<close> before its input \<open>P\<close>: the sequence comes back unchanged.
\<close>

theorem reorder_unsorted_input_counterexample:
  "reorder_computation_for_overlap compute_pair False [''Q'', ''P''] = Some (Inr ([''Q'', ''P''], []))
   \<and> edge compute_pair ''P'' ''Q''
   \<and> \<not> index_of [''Q'', ''P''] ''P'' < index_of [''Q'', ''P''] ''Q''"
  by code_simp

text \<open>A stable sort under a key on which all elements tie changes nothing.\<close>

lemma sort_key_const: "sort_key (\<lambda>n. c) xs = xs"
  by (induction xs) (auto simp: insort_is_Cons)

text \<open>
  Claim C8, as the code has it. An input without communication nodes is returned
  unchanged, which is also what a stable sort gives when all keys tie; the returned
  order respects the dependencies exactly when the input order does.
\<close>

theorem no_comm_returns_input:
  assumes "\<forall>snode \<in> set snodes. kind g snode \<noteq> CollectiveKernel"
  shows "reorder_computation_for_overlap g dbg snodes = Some (Inr (snodes, []))
         \<and> snodes = sort_key (\<lambda>snode. 0 :: nat) snodes
         \<and> (\<forall>out evs. reorder_computation_for_overlap g dbg snodes = Some (Inr (out, evs))
                \<longrightarrow> dep_ordered g out = dep_ordered g snodes)"
proof -
  from assms have "filter (\<lambda>snode. kind g snode = CollectiveKernel) snodes = []"
    by (simp add: filter_empty_conv)
  then have "reorder_computation_for_overlap g dbg snodes = Some (Inr (snodes, []))"
    by (simp add: reorder_computation_for_overlap_def)
  then show ?thesis
    by (simp add: sort_key_const)
qed

theorem no_comm_returns_input_witness:
  "reorder_computation_for_overlap compute_chain False [''A'', ''B'', ''C'']
     = Some (Inr ([''A'', ''B'', ''C''], []))
   \<and> dep_ordered compute_chain [''A'', ''B'', ''C'']"
proof -
  have k: "\<forall>snode \<in> set [''A'', ''B'', ''C'']. kind compute_chain snode \<noteq> CollectiveKernel"
    by (simp add: compute_chain_def)
  have d: "dep_ordered compute_chain [''A'', ''B'', ''C'']"
    by code_simp
  from no_comm_returns_input[OF k, of False] d show ?thesis by simp
qed

text \<open>
  Claim C8 as stated promises a topologically valid order; the chain \<open>A \<rightarrow> B \<rightarrow> C\<close>
  given as \<open>[C, A, B]\<close> comes back as it is.
\<close>

theorem no_comm_unsorted_counterexample:
  "reorder_computation_for_overlap compute_chain False [''C'', ''A'', ''B'']
     = Some (Inr ([''C'', ''A'', ''B''], []))
   \<and> \<not> dep_ordered compute_chain [''C'', ''A'', ''B'']"
  by code_simp

text \<open>
  The candidates of the second priority are the free nodes outside the descendants of
  the previous communication node, each once, in ascending order of the first
  communication node that needs them.
\<close>

lemma overlappable_nodes_props:
  assumes "finite (free_nodes s)"
  shows "set (overlappable_nodes cn ca cd idx s) = free_nodes s - cd (cn ! (idx - 1))"
    and "distinct (overlappable_nodes cn ca cd idx s)"
    and "sorted (map (earliest_comm_descendant cn ca) (overlappable_nodes cn ca cd idx s))"
  using assms by (simp_all add: overlappable_nodes_def tuple_sorted_def Let_def)

text \<open>
  Claim C5, as the code has it. The candidates are the free nodes that do not descend
  from the previous communication node, in ascending order of the earliest
  communication index that needs them. While the accumulated cost is below the cost of
  the previous communication, a candidate that is not a communication node is skipped
  exactly when the remaining gap is at most half of the candidate's cost, and scheduled
  otherwise.
\<close>

theorem priority2_takes_candidate_iff:
  assumes "finite (free_nodes s0)"
    and "total_cost < comm_cost"
    and "kind g snode \<noteq> CollectiveKernel"
    and "snode \<notin> set rest"
    and "snode \<notin> set (result s)"
    and "priority2 g dbg comm_cost (snode # rest) (total_cost, s) = Inr (total_cost', s')"
  shows "set (overlappable_nodes cn ca cd idx s0) = free_nodes s0 - cd (cn ! (idx - 1))
         \<and> sorted (map (earliest_comm_descendant cn ca) (overlappable_nodes cn ca cd idx s0))
         \<and> (snode \<in> set (result s') \<longleftrightarrow> \<not> (comm_cost - total_cost \<le> runtime g snode / 2))"
proof -
  have "snode \<in> set (result s') \<longleftrightarrow> \<not> (comm_cost - total_cost \<le> runtime g snode / 2)"
  proof (cases "comm_cost - total_cost \<le> runtime g snode / 2")
    case True
    with assms(2,3,6) have "priority2 g dbg comm_cost rest (total_cost, s) = Inr (total_cost', s')"
      by simp
    from priority2_result[OF this] assms(4,5) True show ?thesis by auto
  next
    case False
    with assms(2,3,6) obtain s1 where a: "add_node g dbg snode s = Inr s1"
      and p: "priority2 g dbg comm_cost rest (total_cost + runtime g snode, s1) = Inr (total_cost', s')"
      by (auto simp: Let_def split: sum.splits)
    from add_node_result[OF a] priority2_result[OF p] False show ?thesis by auto
  qed
  with overlappable_nodes_props(1,3)[OF assms(1)] show ?thesis by blast
qed

theorem priority2_takes_candidate_iff_witness:
  "priority2 (single_candidate 30) False 10 [''X''] (0, single_candidate_state)
     = Inr (0, single_candidate_state)
   \<and> ''X'' \<notin> set (result single_candidate_state)
   \<and> (10 :: rat) - 0 \<le> runtime (single_candidate 30) ''X'' / 2
   \<and> set (overlappable_nodes [''K''] (\<lambda>n. {}) (\<lambda>n. {}) 1 single_candidate_state) = {''X''}"
proof -
  have r: "priority2 (single_candidate 30) False 10 [''X''] (0, single_candidate_state)
             = Inr (0, single_candidate_state)"
    by (simp add: single_candidate_def)
  have f: "finite (free_nodes single_candidate_state)"
    by (simp add: single_candidate_state_def)
  have "set (overlappable_nodes [''K''] (\<lambda>n. {}) (\<lambda>n. {}) 1 single_candidate_state)
          = free_nodes single_candidate_state - (\<lambda>n. {}) ([''K''] ! (1 - 1))
        \<and> sorted (map (earliest_comm_descendant [''K''] (\<lambda>n. {}))
                    (overlappable_nodes [''K''] (\<lambda>n. {}) (\<lambda>n. {}) 1 single_candidate_state))
        \<and> (''X'' \<in> set (result single_candidate_state)
             \<longleftrightarrow> \<not> ((10 :: rat) - 0 \<le> runtime (single_candidate 30) ''X'' / 2))"
    by (rule priority2_takes_candidate_iff [OF f _ _ _ _ r])
       (simp_all add: single_candidate_def single_candidate_state_def)
  with r show ?thesis by (simp add: single_candidate_state_def)
qed

text \<open>
  Claim C5 as stated skips a candidate whose cost is at most half of the gap. With a
  gap of 10, the candidate of cost 1 is such a candidate, and the code schedules it.
\<close>

theorem priority2_cheap_candidate_counterexample:
  "spec_skips_candidate 10 0 (runtime (single_candidate 1) ''X'')
   \<and> priority2 (single_candidate 1) False 10 [''X''] (0, single_candidate_state)
       = Inr (1, \<lparr>indeg = [''X'' \<mapsto> 0], free_nodes = {}, unused_nodes = {},
                  result = [''X''], events = []\<rparr>)"
  by (simp add: spec_skips_candidate_def single_candidate_def single_candidate_state_def
                add_node_def debug_print_def)

text \<open>
  A pass of \<^verbatim>\<open>add_all_nodes\<close> in which no node of \<open>all_nodes\<close> is free changes
  nothing but the events, so the loop goes round for ever.
\<close>

lemma add_pass_none_free:
  "set nodes \<inter> free_nodes s = {} \<Longrightarrow>
     add_pass g dbg nodes (all_nodes, progress, s) = Inr (all_nodes, progress, s)"
  by (induction nodes) auto

lemma add_loop_stalled_aux:
  assumes "add_loop g dbg all_nodes s = Some r"
  shows "\<not> (all_nodes \<noteq> {} \<and> finite all_nodes \<and> all_nodes \<inter> free_nodes s = {})"
proof (rule add_loop.raw_induct
         [where P = "\<lambda>g dbg all_nodes s r.
                       \<not> (all_nodes \<noteq> {} \<and> finite all_nodes \<and> all_nodes \<inter> free_nodes s = {})",
          OF _ assms], goal_cases)
  case (1 f g dbg all_nodes s r)
  note IH = "1"(1) and eq = "1"(2)
  show ?case
  proof
    assume st: "all_nodes \<noteq> {} \<and> finite all_nodes \<and> all_nodes \<inter> free_nodes s = {}"
    then have "set (tuple_sorted all_nodes) \<inter> free_nodes s = {}"
      by (simp add: tuple_sorted_def)
    from add_pass_none_free[OF this]
    have "add_pass g dbg (tuple_sorted all_nodes) (all_nodes, False, s) = Inr (all_nodes, False, s)" .
    with eq st have "f g dbg all_nodes (s\<lparr>events := events s @ [Breakpoint, Print]\<rparr>) = Some r"
      by simp
    from IH[OF this] st show False by simp
  qed
qed

lemma add_loop_stalled:
  "all_nodes \<noteq> {} \<Longrightarrow> finite all_nodes \<Longrightarrow> all_nodes \<inter> free_nodes s = {} \<Longrightarrow>
     add_loop g dbg all_nodes s = None"
  using add_loop_stalled_aux[of g dbg all_nodes s] by (cases "add_loop g dbg all_nodes s") auto

text \<open>
  Claim C7, on the cyclic graph. No node is free, the first call of
  \<^verbatim>\<open>add_all_nodes\<close> makes no progress, and the call of the scheduler neither returns
  nor fails.
\<close>

theorem reorder_cyclic_never_returns:
  "reorder_computation_for_overlap cyclic False [''A'', ''B'', ''C''] = None"
proof -
  let ?snodes = "[''A'', ''B'', ''C'']"
  have cn: "filter (\<lambda>snode. kind cyclic snode = CollectiveKernel) ?snodes = [''C'']"
    by code_simp
  have anc: "get_ancestors cyclic ''C'' = Some {''A'', ''B''}"
    by code_simp
  have desc: "get_descendants cyclic ''C'' = Some {}"
    by code_simp
  have indeg:
    "init_indeg cyclic ?snodes ''A'' = Some 1"
    "init_indeg cyclic ?snodes ''B'' = Some 1"
    "init_indeg cyclic ?snodes ''C'' = Some 1"
    by code_simp+
  have dict: "comm_dict [''C''] [{''A'', ''B''}] ''C'' = {''A'', ''B''}"
    by (simp add: comm_dict_def)
  have "add_all_nodes cyclic False (insert ''C'' {''A'', ''B''})
          \<lparr>indeg = init_indeg cyclic ?snodes, free_nodes = {},
           unused_nodes = {''A'', ''B'', ''C''}, result = [], events = [Breakpoint]\<rparr> = None"
    unfolding add_all_nodes_def by (simp add: add_loop_stalled)
  then show ?thesis
    unfolding reorder_computation_for_overlap_def Let_def cn
    by (simp add: anc desc indeg dict)
qed


text \<open>
  Claim C9, on a single communication node. The run calls \<^verbatim>\<open>breakpoint()\<close> at
  line 143, before it schedules anything.
\<close>

theorem reorder_single_comm_breakpoint:
  "reorder_computation_for_overlap independent_comms False [''C1'']
     = Some (Inl (UnboundLocalError, [Breakpoint]))"
  by code_simp

end
